theory Spec2Isabelle
  imports Main "HOL-Library.Sublist"
begin

section \<open>Strings of the Go standard library\<close>

text \<open>
  A Go string is a sequence of bytes: \<^typ>\<open>string\<close>. \<open>strings.Split(s, sep)\<close> with a
  non-empty separator cuts \<open>s\<close> at the leftmost occurrence of \<open>sep\<close>, again and again on
  the rest, and returns the pieces; the piece after the last occurrence (possibly empty)
  is the last element, so the result is never empty. \<open>go_split_from\<close> scans from the
  left, \<open>cur\<close> being the bytes of the current piece read so far.

  With the empty separator Go splits after each UTF-8 sequence (and returns the empty
  slice for the empty string); the model splits after each byte, which is the same on
  ASCII strings. Every statement below that depends on splitting assumes a non-empty
  separator.
\<close>

fun go_split_from :: "string \<Rightarrow> string \<Rightarrow> string \<Rightarrow> string list" where
  "go_split_from sep cur [] = [cur]"
| "go_split_from sep cur (c # cs) =
     (if sep \<noteq> [] \<and> prefix sep (c # cs)
      then cur # go_split_from sep [] (drop (length sep) (c # cs))
      else go_split_from sep (cur @ [c]) cs)"

definition go_split :: "string \<Rightarrow> string \<Rightarrow> string list" where
  "go_split s sep = (if sep = [] then map (\<lambda>c. [c]) s else go_split_from sep [] s)"

text \<open>\<open>strings.Join(elems, sep)\<close>.\<close>

fun go_join :: "string list \<Rightarrow> string \<Rightarrow> string" where
  "go_join [] sep = []"
| "go_join [x] sep = x"
| "go_join (x # y # ys) sep = x @ sep @ go_join (y # ys) sep"

section \<open>The trie\<close>

text \<open>
  \<open>type wildcardTrie struct { separator, key, pattern string; value interface{};
  children []wildcardTrie }\<close>. The \<open>interface{}\<close> value is \<^typ>\<open>'v option\<close>, \<open>nil\<close>
  being \<^term>\<open>None\<close>. The field \<open>value\<close> is named \<open>val\<close> here.
\<close>

datatype 'v wildcardTrie =
  WildcardTrie (separator: string) (key: string) (pattern: string)
    (val: "'v option") (children: "'v wildcardTrie list")

text \<open>
  The two ways \<open>Add\<close> and \<open>Get\<close> can panic: the explicit
  \<open>panic("path cannot end with slash")\<close>, and the run-time panic of an index out of
  range (\<open>xs[0]\<close> on an empty slice).
\<close>

datatype error = InvalidPattern | IndexOutOfRange

definition newWildcardTrie :: "string \<Rightarrow> 'v wildcardTrie" where
  "newWildcardTrie sep = WildcardTrie sep [] [] None []"

definition newTrie :: "string \<Rightarrow> string \<Rightarrow> string list \<Rightarrow> 'v wildcardTrie" where
  "newTrie sep k path = WildcardTrie sep k (''/'' @ go_join path sep) None []"

definition wildcard :: string where
  "wildcard = ''*''"

subsection \<open>Insertion\<close>

text \<open>
  \<open>grow\<close> returns the updated node. \<open>grow_loop\<close> is its loop over the children: it
  returns \<open>Some\<close> of the updated children when a child with the key \<open>xs[idx]\<close> was found
  (the first one, which has then grown), and \<open>None\<close> when the loop ran to its end. Reading
  \<open>xs[idx]\<close> out of range panics.
\<close>

function grow :: "nat \<Rightarrow> string list \<Rightarrow> 'v option \<Rightarrow> 'v wildcardTrie \<Rightarrow> error + 'v wildcardTrie"
  and grow_loop :: "nat \<Rightarrow> string list \<Rightarrow> 'v option \<Rightarrow> 'v wildcardTrie list
                      \<Rightarrow> error + 'v wildcardTrie list option"
where
  "grow idx xs v (WildcardTrie sep k p old cs) =
     (if length xs = idx then Inr (WildcardTrie sep k p v cs)
      else case grow_loop idx xs v cs of
             Inl e \<Rightarrow> Inl e
           | Inr (Some cs') \<Rightarrow> Inr (WildcardTrie sep k p old cs')
           | Inr None \<Rightarrow>
               if length xs > idx then
                 (let c = newTrie sep (xs ! idx) (take (idx + 1) xs) in
                  if length xs = idx + 1
                  then Inr (WildcardTrie sep k p old
                              (cs @ [WildcardTrie (separator c) (key c) (pattern c) v (children c)]))
                  else case grow (idx + 1) xs v c of
                         Inl e \<Rightarrow> Inl e
                       | Inr c' \<Rightarrow> Inr (WildcardTrie sep k p old (cs @ [c'])))
               else Inr (WildcardTrie sep k p old cs))"
| "grow_loop idx xs v [] = Inr None"
| "grow_loop idx xs v (c # cs) =
     (if length xs \<le> idx then Inl IndexOutOfRange
      else if key c = xs ! idx then
        (case grow (idx + 1) xs v c of
           Inl e \<Rightarrow> Inl e
         | Inr c' \<Rightarrow> Inr (Some (c' # cs)))
      else case grow_loop idx xs v cs of
             Inl e \<Rightarrow> Inl e
           | Inr None \<Rightarrow> Inr None
           | Inr (Some cs') \<Rightarrow> Inr (Some (c # cs')))"
  by pat_completeness auto
termination
  by (relation "measures
        [\<lambda>a. case a of Inl (idx, xs, v, t) \<Rightarrow> length xs - idx
                     | Inr (idx, xs, v, cs) \<Rightarrow> length xs - idx,
         \<lambda>a. case a of Inl (idx, xs, v, t) \<Rightarrow> Suc (length (children t))
                     | Inr (idx, xs, v, cs) \<Rightarrow> length cs]")
     auto

text \<open>
  \<open>Add\<close> changes the trie in place and may panic; the model returns the error, if any,
  together with the trie as it is afterwards. Both panics of \<open>Add\<close> itself come before
  the first write.
\<close>

definition Add :: "string \<Rightarrow> 'v option \<Rightarrow> 'v wildcardTrie \<Rightarrow> error option \<times> 'v wildcardTrie" where
  "Add s v t =
     (let xs = go_split s (separator t) in
      if xs = [] then (Some IndexOutOfRange, t)
      else
        let idx = (if xs ! 0 = [] then 1 else 0) in
        if length xs > 1 \<and> xs ! (length xs - 1) = [] then (Some InvalidPattern, t)
        else case grow idx xs v t of
               Inl e \<Rightarrow> (Some e, t)
             | Inr t' \<Rightarrow> (None, t'))"

subsection \<open>Lookup\<close>

text \<open>
  \<open>get_children\<close> is the loop \<open>for _, c := range t.children\<close> that both \<open>get\<close> and
  \<open>Get\<close> run: the first child whose \<open>get\<close> yields a non-empty pattern returns.
\<close>

function get :: "nat \<Rightarrow> string list \<Rightarrow> string \<Rightarrow> 'v wildcardTrie \<Rightarrow> error + ('v option \<times> string)"
  and get_children :: "nat \<Rightarrow> string list \<Rightarrow> string \<Rightarrow> 'v wildcardTrie list
                         \<Rightarrow> error + ('v option \<times> string)"
where
  "get idx xs wc (WildcardTrie sep k p v cs) =
     (if length xs \<le> idx then Inl IndexOutOfRange
      else if xs ! idx \<noteq> k \<and> k \<noteq> wc then
        (if k = [] \<and> length cs = 0 then Inr (v, p) else Inr (None, []))
      else if length xs - idx = 1 then Inr (v, p)
      else get_children (idx + 1) xs wc cs)"
| "get_children idx xs wc [] = Inr (None, [])"
| "get_children idx xs wc (c # cs) =
     (case get idx xs wc c of
        Inl e \<Rightarrow> Inl e
      | Inr (v, p) \<Rightarrow> if p \<noteq> [] then Inr (v, p) else get_children idx xs wc cs)"
  by pat_completeness auto
termination
  by (relation "measures
        [\<lambda>a. case a of Inl (idx, xs, wc, t) \<Rightarrow> length xs - idx
                     | Inr (idx, xs, wc, cs) \<Rightarrow> length xs - idx,
         \<lambda>a. case a of Inl (idx, xs, wc, t) \<Rightarrow> 0
                     | Inr (idx, xs, wc, cs) \<Rightarrow> Suc (length cs)]")
     auto

definition Get :: "string \<Rightarrow> 'v wildcardTrie \<Rightarrow> error + ('v option \<times> string)" where
  "Get s t =
     (let xs = go_split s (separator t) in
      if xs = [] then Inl IndexOutOfRange
      else if xs ! 0 = [] then get 0 xs wildcard t
      else get_children 0 xs wildcard (children t))"

section \<open>Notions used to state the properties\<close>

text \<open>
  A separator has a border when a proper non-empty prefix of it is also a suffix of it
  (\<open>::\<close> has the border \<open>:\<close>; \<open>/\<close> and \<open>->\<close> have none). Only for a separator without
  border does every string that ends with the separator split into pieces the last of
  which is empty: \<open>strings.Split("aaa", "aa")\<close> is \<open>["", "a"]\<close>.
\<close>

definition unbordered :: "string \<Rightarrow> bool" where
  "unbordered sep = (\<forall>n \<in> {1..<length sep}. take n sep \<noteq> drop (length sep - n) sep)"

text \<open>
  The subtree of the child \<open>c\<close> yields a non-empty matched pattern for the segments
  \<open>xs\<close> from \<open>idx\<close> on.
\<close>

definition yields :: "nat \<Rightarrow> string list \<Rightarrow> string \<Rightarrow> 'v wildcardTrie \<Rightarrow> bool" where
  "yields idx xs wc c = (case get idx xs wc c of Inl e \<Rightarrow> False | Inr (v, p) \<Rightarrow> p \<noteq> [])"

text \<open>
  First match wins: the result of the earliest child in the children list whose subtree
  yields a non-empty matched pattern, and no match when there is none.
\<close>

definition first_match :: "nat \<Rightarrow> string list \<Rightarrow> string \<Rightarrow> 'v wildcardTrie list
    \<Rightarrow> error + ('v option \<times> string)" where
  "first_match idx xs wc cs =
     (case find (yields idx xs wc) cs of
        None \<Rightarrow> Inr (None, [])
      | Some c \<Rightarrow> get idx xs wc c)"

text \<open>
  The child that an empty final segment selects among the children \<open>cs\<close>: the earliest
  one whose key is empty or the wildcard and whose pattern is not empty.
\<close>

definition first_final_child :: "string \<Rightarrow> 'v wildcardTrie list \<Rightarrow> 'v wildcardTrie option" where
  "first_final_child wc cs = find (\<lambda>c. (key c = [] \<or> key c = wc) \<and> pattern c \<noteq> []) cs"

text \<open>
  A sequence of \<open>Add\<close> calls on one trie. A call that panics leaves the trie as it was,
  so the sequence goes on from the same trie (as the test of \<open>Add\<close> does with \<open>recover\<close>).
\<close>

fun add_all :: "(string \<times> 'v option) list \<Rightarrow> 'v wildcardTrie \<Rightarrow> 'v wildcardTrie" where
  "add_all [] t = t"
| "add_all ((p, v) # ops) t = add_all ops (snd (Add p v t))"

text \<open>The value given by the last call in \<open>ops\<close> whose pattern is empty, \<open>r\<close> if there is none.\<close>

definition last_root_value :: "(string \<times> 'v option) list \<Rightarrow> 'v option \<Rightarrow> 'v option" where
  "last_root_value ops r = fold (\<lambda>(p, v) r. if p = [] then v else r) ops r"

text \<open>
  Replacing one value: \<open>put_value segs v t\<close> follows the segments \<open>segs\<close> from \<open>t\<close>
  down, at each level into the first child with that key, and puts \<open>v\<close> at the node it
  ends at; nothing else changes, and nothing changes when the path is not there.
\<close>

function put_value :: "string list \<Rightarrow> 'v option \<Rightarrow> 'v wildcardTrie \<Rightarrow> 'v wildcardTrie"
  and put_value_children :: "string \<Rightarrow> string list \<Rightarrow> 'v option \<Rightarrow> 'v wildcardTrie list
                               \<Rightarrow> 'v wildcardTrie list"
where
  "put_value [] v (WildcardTrie sep k p old cs) = WildcardTrie sep k p v cs"
| "put_value (x # xs) v (WildcardTrie sep k p old cs) =
     WildcardTrie sep k p old (put_value_children x xs v cs)"
| "put_value_children x xs v [] = []"
| "put_value_children x xs v (c # cs) =
     (if key c = x then put_value xs v c # cs else c # put_value_children x xs v cs)"
  by pat_completeness auto
termination
  by (relation "measures
        [\<lambda>a. case a of Inl (xs, v, t) \<Rightarrow> length xs
                     | Inr (x, xs, v, cs) \<Rightarrow> Suc (length xs),
         \<lambda>a. case a of Inl (xs, v, t) \<Rightarrow> Suc (length (children t))
                     | Inr (x, xs, v, cs) \<Rightarrow> length cs]")
     auto

text \<open>The segments of a pattern that \<open>Add\<close> walks: the split without an empty first segment.\<close>

definition segments :: "string \<Rightarrow> string \<Rightarrow> string list" where
  "segments p sep = (let xs = go_split p sep in if xs \<noteq> [] \<and> xs ! 0 = [] then drop 1 xs else xs)"

text \<open>
  The node of a pattern: \<open>node_at segs t\<close> follows the segments \<open>segs\<close> from \<open>t\<close> down, at
  each level into the first child with that key, as \<open>grow\<close> does.
\<close>

function node_at :: "string list \<Rightarrow> 'v wildcardTrie \<Rightarrow> 'v wildcardTrie option"
  and node_at_children :: "string \<Rightarrow> string list \<Rightarrow> 'v wildcardTrie list \<Rightarrow> 'v wildcardTrie option"
where
  "node_at [] t = Some t"
| "node_at (x # xs) (WildcardTrie sep k p v cs) = node_at_children x xs cs"
| "node_at_children x xs [] = None"
| "node_at_children x xs (c # cs) =
     (if key c = x then node_at xs c else node_at_children x xs cs)"
  by pat_completeness auto
termination
  by (relation "measures
        [\<lambda>a. case a of Inl (xs, t) \<Rightarrow> length xs
                     | Inr (x, xs, cs) \<Rightarrow> Suc (length xs),
         \<lambda>a. case a of Inl (xs, t) \<Rightarrow> Suc (length (children t))
                     | Inr (x, xs, cs) \<Rightarrow> length cs]")
     auto

text \<open>
  Nothing takes a lookup of the segments \<open>segs\<close> away from the node of \<open>segs\<close>: at every
  level of the way, no child that stands before the child on the way yields a non-empty
  matched pattern for the segments left, and the node at the end of the way, if it is
  there already, has a non-empty pattern. Where the way ends in \<open>t\<close> the new nodes will
  come last, so there all children stand before.
\<close>

function unshadowed :: "string list \<Rightarrow> 'v wildcardTrie \<Rightarrow> bool"
  and unshadowed_children :: "string \<Rightarrow> string list \<Rightarrow> 'v wildcardTrie list \<Rightarrow> bool"
where
  "unshadowed [] t = True"
| "unshadowed (x # xs) (WildcardTrie sep k p v cs) = unshadowed_children x xs cs"
| "unshadowed_children x xs [] = True"
| "unshadowed_children x xs (c # cs) =
     (if key c = x then (if xs = [] then pattern c \<noteq> [] else unshadowed xs c)
      else \<not> yields 0 (x # xs) wildcard c \<and> unshadowed_children x xs cs)"
  by pat_completeness auto
termination
  by (relation "measures
        [\<lambda>a. case a of Inl (xs, t) \<Rightarrow> length xs
                     | Inr (x, xs, cs) \<Rightarrow> Suc (length xs),
         \<lambda>a. case a of Inl (xs, t) \<Rightarrow> Suc (length (children t))
                     | Inr (x, xs, cs) \<Rightarrow> length cs]")
     auto

text \<open>
  \<open>keeps_children t t'\<close>: \<open>t'\<close> has every node of \<open>t\<close>, with its key, at the same position of
  the same children list; what \<open>t'\<close> has more stands behind in the children lists.
\<close>

fun keeps_children :: "'v wildcardTrie \<Rightarrow> 'v wildcardTrie \<Rightarrow> bool"
  and keeps_children_list :: "'v wildcardTrie list \<Rightarrow> 'v wildcardTrie list \<Rightarrow> bool"
where
  "keeps_children (WildcardTrie sep k p v cs) (WildcardTrie sep' k' p' v' cs') =
     (k = k' \<and> keeps_children_list cs cs')"
| "keeps_children_list [] cs' = True"
| "keeps_children_list (c # cs) [] = False"
| "keeps_children_list (c # cs) (c' # cs') = (keeps_children c c' \<and> keeps_children_list cs cs')"

text \<open>The trie without its patterns: separator, key, value and children of every node.\<close>

fun forget_patterns :: "'v wildcardTrie \<Rightarrow> 'v wildcardTrie" where
  "forget_patterns (WildcardTrie sep k p v cs) = WildcardTrie sep k [] v (map forget_patterns cs)"

text \<open>
  The pattern that \<open>newTrie\<close> gives a node reached from the root by the keys \<open>pre\<close> and then
  its own key, when no empty first segment is in the way: \<open>/\<close> followed by these keys
  joined by the separator; and the same for every node below, all with that separator.
\<close>

fun patterns_ok :: "string \<Rightarrow> string list \<Rightarrow> 'v wildcardTrie \<Rightarrow> bool" where
  "patterns_ok sep0 pre (WildcardTrie sep k p v cs) =
     (sep = sep0 \<and> p = ''/'' @ go_join (pre @ [k]) sep0
      \<and> list_all (patterns_ok sep0 (pre @ [k])) cs)"

definition root_patterns_ok :: "'v wildcardTrie \<Rightarrow> bool" where
  "root_patterns_ok t = list_all (patterns_ok (separator t) []) (children t)"

section \<open>Splitting and joining\<close>

lemma go_split_from_not_Nil [simp]: "go_split_from sep cur s \<noteq> []"
  by (induction sep cur s rule: go_split_from.induct) auto

lemma go_split_from_sep:
  "sep \<noteq> [] \<Longrightarrow> go_split_from sep cur (sep @ q) = cur # go_split_from sep [] q"
  by (cases sep) auto

lemma go_join_Cons: "ys \<noteq> [] \<Longrightarrow> go_join (x # ys) sep = x @ sep @ go_join ys sep"
  by (cases ys) auto

lemma go_join_split_from: "go_join (go_split_from sep cur s) sep = cur @ s"
proof (induction sep cur s rule: go_split_from.induct)
  case (1 sep cur)
  show ?case by simp
next
  case (2 sep cur c cs)
  show ?case
  proof (cases "sep \<noteq> [] \<and> prefix sep (c # cs)")
    case True
    then have "sep @ drop (length sep) (c # cs) = c # cs"
      by (metis append_take_drop_id prefix_def append_eq_conv_conj)
    moreover from True 2 have "go_join (go_split_from sep [] (drop (length sep) (c # cs))) sep
        = drop (length sep) (c # cs)" by simp
    moreover from True have "go_split_from sep cur (c # cs)
        = cur # go_split_from sep [] (drop (length sep) (c # cs))" by simp
    ultimately show ?thesis by (simp add: go_join_Cons)
  next
    case False
    with 2 show ?thesis by auto
  qed
qed

lemma go_split_from_hd: "cur \<noteq> [] \<Longrightarrow> hd (go_split_from sep cur s) \<noteq> []"
  by (induction sep cur s rule: go_split_from.induct) auto

lemma go_split_from_last:
  "last (go_split_from sep cur s) = [] \<Longrightarrow> (s = [] \<and> cur = []) \<or> suffix sep s"
proof (induction sep cur s rule: go_split_from.induct)
  case (1 sep cur)
  then show ?case by simp
next
  case (2 sep cur c cs)
  show ?case
  proof (cases "sep \<noteq> [] \<and> prefix sep (c # cs)")
    case True
    then have eq: "sep @ drop (length sep) (c # cs) = c # cs"
      by (metis append_take_drop_id prefix_def append_eq_conv_conj)
    from True 2 have "drop (length sep) (c # cs) = [] \<or> suffix sep (drop (length sep) (c # cs))"
      by simp
    then show ?thesis
    proof
      assume "drop (length sep) (c # cs) = []"
      with eq have "sep = c # cs" by simp
      then show ?thesis by simp
    next
      assume "suffix sep (drop (length sep) (c # cs))"
      then have "suffix sep (sep @ drop (length sep) (c # cs))" by (rule suffix_appendI)
      with eq show ?thesis by simp
    qed
  next
    case False
    with 2 have "suffix sep cs" by auto
    then show ?thesis by (simp add: suffix_ConsI)
  qed
qed

lemma unbordered_prefix:
  assumes u: "unbordered sep" and r: "r \<noteq> []" and p: "prefix sep (r @ sep)"
  shows "prefix sep r"
proof (rule ccontr)
  assume np: "\<not> prefix sep r"
  have len: "length r < length sep"
  proof (rule ccontr)
    assume "\<not> length r < length sep"
    then have "length sep \<le> length r" by simp
    with p have "prefix sep r" by (metis prefix_length_prefix prefixI)
    with np show False by simp
  qed
  from p have "take (length sep) (r @ sep) = sep"
    by (metis append_eq_conv_conj prefix_def)
  with len have eq: "r @ take (length sep - length r) sep = sep" by simp
  let ?n = "length sep - length r"
  from eq have "drop (length r) sep = take ?n sep"
    by (metis append_eq_conv_conj)
  moreover have "length sep - ?n = length r" using len by simp
  ultimately have "take ?n sep = drop (length sep - ?n) sep" by simp
  moreover have "?n \<in> {1..<length sep}" using len r by (cases r) auto
  ultimately show False using u by (auto simp: unbordered_def)
qed

lemma go_split_from_trailing:
  "unbordered sep \<Longrightarrow> sep \<noteq> [] \<Longrightarrow>
   go_split_from sep cur (q @ sep) = go_split_from sep cur q @ [Nil]"
proof (induction sep cur q rule: go_split_from.induct)
  case (1 sep cur)
  then show ?case using go_split_from_sep [of sep cur "[]"] by simp
next
  case (2 sep cur c cs)
  show ?case
  proof (cases "prefix sep (c # cs)")
    case True
    then have "prefix sep ((c # cs) @ sep)" by (rule prefix_prefix)
    moreover from True have "drop (length sep) ((c # cs) @ sep) = drop (length sep) (c # cs) @ sep"
      by (metis prefix_length_le drop_append diff_is_0_eq drop0)
    moreover from True 2 have "go_split_from sep [] (drop (length sep) (c # cs) @ sep)
        = go_split_from sep [] (drop (length sep) (c # cs)) @ [Nil]" by simp
    moreover from 2 True have "go_split_from sep cur (c # cs)
        = cur # go_split_from sep [] (drop (length sep) (c # cs))" by simp
    moreover from 2 have "sep \<noteq> []" by simp 
    ultimately show ?thesis by (simp del: go_split_from.simps add: go_split_from.simps(2) [of sep cur c "cs @ sep"])
  next
    case False
    with 2(3) have "\<not> prefix sep ((c # cs) @ sep)"
      using unbordered_prefix [of sep "c # cs"] by blast
    with False 2 show ?thesis by simp
  qed
qed

lemma go_split_sep: "sep \<noteq> [] \<Longrightarrow> go_split (sep @ q) sep = [] # go_split q sep"
  by (simp add: go_split_def go_split_from_sep)

lemma go_split_hd:
  assumes "sep \<noteq> []" "q \<noteq> []" "\<not> prefix sep q"
  shows "hd (go_split q sep) \<noteq> []"
proof -
  from assms(2) obtain c cs where q: "q = c # cs" by (cases q) auto
  with assms have "go_split q sep = go_split_from sep [c] cs" by (simp add: go_split_def)
  then show ?thesis by (simp add: go_split_from_hd)
qed

lemma go_split_not_Nil: "sep \<noteq> [] \<Longrightarrow> go_split s sep \<noteq> []"
  by (simp add: go_split_def)

lemma go_split_single: "sep \<noteq> [] \<Longrightarrow> go_split s sep = [x] \<Longrightarrow> x = s"
  using go_join_split_from [of sep "[]" s] by (simp add: go_split_def)

section \<open>The walk of \<open>get\<close>\<close>

lemma get_unfold:
  "get idx xs wc t =
     (if length xs \<le> idx then Inl IndexOutOfRange
      else if xs ! idx \<noteq> key t \<and> key t \<noteq> wc then
        (if key t = [] \<and> children t = [] then Inr (val t, pattern t) else Inr (None, []))
      else if length xs - idx = 1 then Inr (val t, pattern t)
      else get_children (idx + 1) xs wc (children t))"
  by (cases t) simp

text \<open>Within the slice, \<open>get\<close> and its loop never panic.\<close>

lemma get_total:
  fixes t :: "'v wildcardTrie" and cs :: "'v wildcardTrie list"
  shows "idx < length xs \<Longrightarrow> \<exists>r. get idx xs wc t = Inr r"
    and "idx < length xs \<Longrightarrow> \<exists>r. get_children idx xs wc cs = Inr r"
proof (induction idx xs wc t and idx xs wc cs rule: get_get_children.induct)
  case (1 idx xs wc sep k p v cs)
  then show ?case by auto
next
  case (2 idx xs wc)
  then show ?case by simp
next
  case (3 idx xs wc c cs)
  then show ?case by (auto split: sum.splits)
qed

lemma get_children_first_match:
  "idx < length xs \<Longrightarrow> get_children idx xs wc cs = first_match idx xs wc cs"
proof (induction cs)
  case Nil
  show ?case by (simp add: first_match_def)
next
  case (Cons c cs)
  from Cons.prems obtain v p where g: "get idx xs wc c = Inr (v, p)"
    using get_total(1) [of idx xs wc c] by fastforce
  show ?case
  proof (cases "p = []")
    case True
    with g Cons show ?thesis by (simp add: first_match_def yields_def)
  next
    case False
    with g show ?thesis by (simp add: first_match_def yields_def)
  qed
qed

text \<open>Only the segments from \<open>idx\<close> on matter.\<close>

lemma get_shift:
  fixes t :: "'v wildcardTrie" and cs :: "'v wildcardTrie list"
  shows "get (Suc idx) (x # xs) wc t = get idx xs wc t"
    and "get_children (Suc idx) (x # xs) wc cs = get_children idx xs wc cs"
proof (induction idx xs wc t and idx xs wc cs arbitrary: x and x rule: get_get_children.induct)
  case (1 idx xs wc sep k p v cs)
  then show ?case by auto
next
  case (2 idx xs wc)
  then show ?case by simp
next
  case (3 idx xs wc c cs)
  then show ?case by (auto split: sum.splits)
qed

lemma get_drop:
  "get idx xs wc t = get 0 (drop idx xs) wc t"
proof (induction idx arbitrary: xs)
  case 0
  show ?case by simp
next
  case (Suc idx)
  show ?case
  proof (cases xs)
    case Nil
    then show ?thesis by (simp add: get_unfold)
  next
    case (Cons x ys)
    then show ?thesis using Suc [of ys] by (simp add: get_shift(1))
  qed
qed

lemma get_children_drop:
  "get_children idx xs wc cs = get_children 0 (drop idx xs) wc cs"
proof (induction idx arbitrary: xs)
  case 0
  show ?case by simp
next
  case (Suc idx)
  show ?case
  proof (cases xs)
    case Nil
    have "get_children i [] wc cs = get_children 0 [] wc cs" for i
      by (induction cs) (auto simp: get_unfold)
    with Nil show ?thesis by simp
  next
    case (Cons x ys)
    then show ?thesis using Suc [of ys] by (simp add: get_shift(2))
  qed
qed

lemma get_children_final_child:
  "idx + 1 = length xs \<Longrightarrow> xs ! idx = [] \<Longrightarrow>
   get_children idx xs wc cs =
     (case first_final_child wc cs of None \<Rightarrow> Inr (None, []) | Some c \<Rightarrow> Inr (val c, pattern c))"
proof (induction cs)
  case Nil
  show ?case by (simp add: first_final_child_def)
next
  case (Cons c cs)
  then show ?case by (cases c) (auto simp: first_final_child_def)
qed

section \<open>The root under \<open>grow\<close> and \<open>Add\<close>\<close>

lemma grow_root:
  "grow idx xs v t = Inr t' \<Longrightarrow>
   separator t' = separator t \<and> key t' = key t \<and> pattern t' = pattern t
   \<and> val t' = (if length xs = idx then v else val t)"
proof (cases t)
  case (WildcardTrie sep k p old cs)
  assume g: "grow idx xs v t = Inr t'"
  show ?thesis
  proof (cases "length xs = idx")
    case True
    with g WildcardTrie show ?thesis by auto
  next
    case False
    with g WildcardTrie show ?thesis
      by (simp only: grow.simps if_False Let_def split: sum.splits option.splits if_splits) auto
  qed
qed

lemma Add_root:
  assumes "separator t \<noteq> []"
  shows "separator (snd (Add s v t)) = separator t \<and> key (snd (Add s v t)) = key t
       \<and> pattern (snd (Add s v t)) = pattern t
       \<and> val (snd (Add s v t)) = (if s = [] then v else val t)"
proof -
  let ?xs = "go_split s (separator t)"
  let ?idx = "if ?xs ! 0 = [] then 1 else 0 :: nat"
  have ne: "?xs \<noteq> []" using assms by (rule go_split_not_Nil)
  have idx: "length ?xs = ?idx \<longleftrightarrow> s = []"
  proof
    assume l: "length ?xs = ?idx"
    with ne have "length ?xs = 1 \<and> ?xs ! 0 = []" by (auto split: if_splits)
    then have "?xs = [Nil]" by (cases ?xs) auto
    with assms show "s = []" using go_split_single by fastforce
  next
    assume "s = []"
    with assms show "length ?xs = ?idx" by (simp add: go_split_def)
  qed
  show ?thesis
  proof (cases "length ?xs > 1 \<and> ?xs ! (length ?xs - 1) = []")
    case True
    then have "Add s v t = (Some InvalidPattern, t)" using ne by (simp add: Add_def Let_def)
    moreover from True idx have "s \<noteq> []" by (auto split: if_splits)
    ultimately show ?thesis by simp
  next
    case False
    show ?thesis
    proof (cases "grow ?idx ?xs v t")
      case (Inl e)
      then have "Add s v t = (Some e, t)" using ne False by (auto simp: Add_def Let_def)
      moreover have "s \<noteq> []"
      proof
        assume "s = []"
        with assms have "grow ?idx ?xs v t = Inr (WildcardTrie (separator t) (key t) (pattern t) v (children t))"
          by (cases t) (simp add: go_split_def)
        with Inl show False by simp
      qed
      ultimately show ?thesis by simp
    next
      case (Inr t')
      then have "Add s v t = (None, t')" using ne False by (auto simp: Add_def Let_def)
      moreover from grow_root [OF Inr] idx
      have "separator t' = separator t \<and> key t' = key t \<and> pattern t' = pattern t
         \<and> val t' = (if s = [] then v else val t)" by simp
      ultimately show ?thesis by simp
    qed
  qed
qed

section \<open>Growing\<close>

lemma newTrie_sel [simp]:
  "key (newTrie sep k path) = k" "separator (newTrie sep k path) = sep"
  "children (newTrie sep k path) = []" "val (newTrie sep k path) = None"
  "pattern (newTrie sep k path) = ''/'' @ go_join path sep"
  by (simp_all add: newTrie_def)

text \<open>Within the slice, \<open>grow\<close> and its loop never panic.\<close>

lemma grow_total:
  fixes t :: "'v wildcardTrie" and cs :: "'v wildcardTrie list"
  shows "idx \<le> length xs \<Longrightarrow> \<exists>t'. grow idx xs v t = Inr t'"
    and "idx < length xs \<Longrightarrow> \<exists>r. grow_loop idx xs v cs = Inr r"
proof (induction idx xs v t and idx xs v cs rule: grow_grow_loop.induct)
  case (1 idx xs v sep k p old cs)
  show ?case
  proof (cases "length xs = idx")
    case True
    then show ?thesis by simp
  next
    case False
    with "1.prems" have lt: "idx < length xs" by simp
    from "1.IH"(1) [OF False lt] obtain r where r: "grow_loop idx xs v cs = Inr r" by blast
    show ?thesis
    proof (cases r)
      case (Some cs')
      with r False show ?thesis by simp
    next
      case None
      show ?thesis
      proof (cases "length xs = idx + 1")
        case True
        with r None False lt show ?thesis by (simp add: Let_def)
      next
        case F2: False
        from lt F2 have "idx + 1 \<le> length xs" by simp
        from r None have r0: "grow_loop idx xs v cs = Inr None" by simp
        from "1.IH"(2) [OF False r0 refl lt refl F2 \<open>idx + 1 \<le> length xs\<close>]
        obtain c' where "grow (idx + 1) xs v (newTrie sep (xs ! idx) (take (idx + 1) xs)) = Inr c'"
          by blast
        with r None False lt F2 show ?thesis by (simp add: Let_def)
      qed
    qed
  qed
next
  case (2 idx xs v)
  show ?case by simp
next
  case (3 idx xs v c cs)
  show ?case
  proof (cases "key c = xs ! idx")
    case True
    from "3.prems" have n: "\<not> length xs \<le> idx" by simp
    from "3.prems" have "idx + 1 \<le> length xs" by simp
    from "3.IH"(1) [OF n True this] obtain c' where "grow (idx + 1) xs v c = Inr c'" by auto
    with True "3.prems" show ?thesis by simp
  next
    case False
    from "3.prems" have n: "\<not> length xs \<le> idx" by simp
    from "3.IH"(2) [OF n False "3.prems"] obtain r where "grow_loop idx xs v cs = Inr r" by blast
    with False "3.prems" show ?thesis by (cases r) auto
  qed
qed

lemma grow_key: "grow idx xs v t = Inr t' \<Longrightarrow> key t' = key t"
  using grow_root by blast

lemma grow_loop_None:
  "grow_loop idx xs v cs = Inr None \<Longrightarrow> grow_loop idx xs v' cs = Inr None"
  by (induction cs) (auto split: if_splits sum.splits option.splits)

lemma grow_loop_None_keys:
  "grow_loop idx xs v cs = Inr None \<Longrightarrow> idx < length xs \<Longrightarrow> \<forall>c \<in> set cs. key c \<noteq> xs ! idx"
  by (induction cs) (auto split: if_splits sum.splits option.splits)

lemma grow_loop_append:
  "grow_loop idx xs v cs = Inr None \<Longrightarrow> idx < length xs \<Longrightarrow> key c = xs ! idx \<Longrightarrow>
   grow_loop idx xs v' (cs @ [c]) =
     (case grow (idx + 1) xs v' c of Inl e \<Rightarrow> Inl e | Inr c' \<Rightarrow> Inr (Some (cs @ [c'])))"
  by (induction cs) (auto split: if_splits sum.splits option.splits)

text \<open>A second \<open>grow\<close> along the same segments does not depend on the value of the first.\<close>

lemma grow_grow:
  fixes t :: "'v wildcardTrie" and cs :: "'v wildcardTrie list"
  shows "grow idx xs v1 t = Inr t1 \<Longrightarrow> grow idx xs v2 t1 = grow idx xs v2 t"
    and "grow_loop idx xs v1 cs = Inr (Some cs1) \<Longrightarrow>
           grow_loop idx xs v2 cs1 = grow_loop idx xs v2 cs"
proof (induction idx xs v1 t and idx xs v1 cs arbitrary: t1 and cs1 rule: grow_grow_loop.induct)
  case (1 idx xs v1 sep k p old cs)
  show ?case
  proof (cases "length xs = idx")
    case True
    with "1.prems" show ?thesis by auto
  next
    case ne: False
    show ?thesis
    proof (cases "grow_loop idx xs v1 cs")
      case (Inl e)
      with ne "1.prems" show ?thesis by simp
    next
      case (Inr r)
      show ?thesis
      proof (cases r)
        case (Some cs1)
        with Inr ne "1.prems" have t1: "t1 = WildcardTrie sep k p old cs1" by simp
        from Inr Some have l1: "grow_loop idx xs v1 cs = Inr (Some cs1)" by simp
        from "1.IH"(1) [OF ne l1] have eq: "grow_loop idx xs v2 cs1 = grow_loop idx xs v2 cs" .
        have "grow_loop idx xs v2 cs \<noteq> Inr None"
        proof
          assume "grow_loop idx xs v2 cs = Inr None"
          then have "grow_loop idx xs v1 cs = Inr None" by (rule grow_loop_None)
          with l1 show False by simp
        qed
        with eq t1 ne show ?thesis by (auto split: sum.splits option.splits)
      next
        case None
        with Inr have l0: "grow_loop idx xs v1 cs = Inr None" by simp
        then have l2: "grow_loop idx xs v2 cs = Inr None" by (rule grow_loop_None)
        show ?thesis
        proof (cases "idx < length xs")
          case False
          with l0 ne "1.prems" have "t1 = WildcardTrie sep k p old cs" by simp
          then show ?thesis by simp
        next
          case lt: True
          let ?c = "newTrie sep (xs ! idx) (take (idx + 1) xs) :: 'v wildcardTrie"
          show ?thesis
          proof (cases "length xs = idx + 1")
            case True
            let ?c1 = "WildcardTrie sep (xs ! idx) (pattern ?c) v1 [] :: 'v wildcardTrie"
            from True l0 ne lt "1.prems" have t1: "t1 = WildcardTrie sep k p old (cs @ [?c1])"
              by (simp add: Let_def)
            have "grow_loop idx xs v2 (cs @ [?c1])
                = Inr (Some (cs @ [WildcardTrie sep (xs ! idx) (pattern ?c) v2 []]))"
              using grow_loop_append [OF l0 lt, of ?c1 v2] True by simp
            with t1 ne l2 lt True show ?thesis by (simp add: Let_def)
          next
            case F2: False
            from F2 l0 ne lt "1.prems" obtain c1 where
              c1: "grow (idx + 1) xs v1 ?c = Inr c1" and t1: "t1 = WildcardTrie sep k p old (cs @ [c1])"
              by (auto simp: Let_def split: sum.splits)
            from "1.IH"(2) [OF ne l0 refl lt refl F2 c1]
            have eq: "grow (idx + 1) xs v2 c1 = grow (idx + 1) xs v2 ?c" .
            from grow_key [OF c1] have "key c1 = xs ! idx" by simp
            from grow_loop_append [OF l0 lt this, of v2] eq
            have "grow_loop idx xs v2 (cs @ [c1])
                = (case grow (idx + 1) xs v2 ?c of Inl e \<Rightarrow> Inl e | Inr c' \<Rightarrow> Inr (Some (cs @ [c'])))"
              by simp
            with t1 ne l2 lt F2 show ?thesis by (simp add: Let_def split: sum.splits)
          qed
        qed
      qed
    qed
  qed
next
  case (2 idx xs v1)
  then show ?case by simp
next
  case (3 idx xs v1 c cs)
  from "3.prems" have n: "\<not> length xs \<le> idx" by (auto split: if_splits)
  show ?case
  proof (cases "key c = xs ! idx")
    case True
    with "3.prems" n obtain c1 where c1: "grow (idx + 1) xs v1 c = Inr c1" and cs1: "cs1 = c1 # cs"
      by (auto split: sum.splits)
    from "3.IH"(1) [OF n True c1] have "grow (idx + 1) xs v2 c1 = grow (idx + 1) xs v2 c" .
    moreover from grow_key [OF c1] True have "key c1 = xs ! idx" by simp
    ultimately show ?thesis using cs1 n True by simp
  next
    case False
    with "3.prems" n obtain cs' where l: "grow_loop idx xs v1 cs = Inr (Some cs')" and cs1: "cs1 = c # cs'"
      by (auto split: sum.splits option.splits)
    from "3.IH"(2) [OF n False l] have "grow_loop idx xs v2 cs' = grow_loop idx xs v2 cs" .
    then show ?thesis using cs1 n False by simp
  qed
qed

lemma put_value_children_append:
  "\<forall>c \<in> set cs. key c \<noteq> x \<Longrightarrow> key c1 = x \<Longrightarrow>
   put_value_children x ys v (cs @ [c1]) = cs @ [put_value ys v c1]"
  by (induction cs) auto

text \<open>After a \<open>grow\<close>, a second one along the same segments only replaces the value.\<close>

lemma grow_put_value:
  fixes t :: "'v wildcardTrie" and cs :: "'v wildcardTrie list"
  shows "grow idx xs v1 t = Inr t1 \<Longrightarrow> idx \<le> length xs \<Longrightarrow>
           grow idx xs v2 t1 = Inr (put_value (drop idx xs) v2 t1)"
    and "grow_loop idx xs v1 cs = Inr (Some cs1) \<Longrightarrow> idx < length xs \<Longrightarrow>
           grow_loop idx xs v2 cs1
             = Inr (Some (put_value_children (xs ! idx) (drop (idx + 1) xs) v2 cs1))"
proof (induction idx xs v1 t and idx xs v1 cs arbitrary: t1 and cs1 rule: grow_grow_loop.induct)
  case (1 idx xs v1 sep k p old cs)
  show ?case
  proof (cases "length xs = idx")
    case True
    with "1.prems" show ?thesis by auto
  next
    case ne: False
    with "1.prems" have lt: "idx < length xs" by simp
    then have dr: "drop idx xs = xs ! idx # drop (idx + 1) xs" by (simp add: Cons_nth_drop_Suc)
    show ?thesis
    proof (cases "grow_loop idx xs v1 cs")
      case (Inl e)
      with ne "1.prems" show ?thesis by simp
    next
      case (Inr r)
      show ?thesis
      proof (cases r)
        case (Some cs1)
        with Inr ne "1.prems" have t1: "t1 = WildcardTrie sep k p old cs1" by simp
        from Inr Some have l1: "grow_loop idx xs v1 cs = Inr (Some cs1)" by simp
        from "1.IH"(1) [OF ne l1 lt] t1 ne dr show ?thesis by simp
      next
        case None
        with Inr have l0: "grow_loop idx xs v1 cs = Inr None" by simp
        note keys = grow_loop_None_keys [OF l0 lt]
        let ?c = "newTrie sep (xs ! idx) (take (idx + 1) xs) :: 'v wildcardTrie"
        show ?thesis
        proof (cases "length xs = idx + 1")
          case True
          let ?c1 = "WildcardTrie sep (xs ! idx) (pattern ?c) v1 [] :: 'v wildcardTrie"
          from True l0 ne lt "1.prems" have t1: "t1 = WildcardTrie sep k p old (cs @ [?c1])"
            by (simp add: Let_def)
          have "grow_loop idx xs v2 (cs @ [?c1])
              = Inr (Some (cs @ [WildcardTrie sep (xs ! idx) (pattern ?c) v2 []]))"
            using grow_loop_append [OF l0 lt, of ?c1 v2] True by simp
          moreover have "put_value_children (xs ! idx) (drop (idx + 1) xs) v2 (cs @ [?c1])
              = cs @ [WildcardTrie sep (xs ! idx) (pattern ?c) v2 []]"
            using put_value_children_append [OF keys, of ?c1 "drop (idx + 1) xs" v2] True by simp
          ultimately show ?thesis using t1 ne dr by simp
        next
          case F2: False
          from F2 l0 ne lt "1.prems" obtain c1 where
            c1: "grow (idx + 1) xs v1 ?c = Inr c1" and t1: "t1 = WildcardTrie sep k p old (cs @ [c1])"
            by (auto simp: Let_def split: sum.splits)
          from lt have le: "idx + 1 \<le> length xs" by simp
          from "1.IH"(2) [OF ne l0 refl lt refl F2 c1 le]
          have eq: "grow (idx + 1) xs v2 c1 = Inr (put_value (drop (idx + 1) xs) v2 c1)" .
          from grow_key [OF c1] have k1: "key c1 = xs ! idx" by simp
          from grow_loop_append [OF l0 lt k1, of v2] eq
          have "grow_loop idx xs v2 (cs @ [c1])
              = Inr (Some (cs @ [put_value (drop (idx + 1) xs) v2 c1]))"
            by simp
          moreover have "put_value_children (xs ! idx) (drop (idx + 1) xs) v2 (cs @ [c1])
              = cs @ [put_value (drop (idx + 1) xs) v2 c1]"
            using put_value_children_append [OF keys k1] .
          ultimately show ?thesis using t1 ne dr by simp
        qed
      qed
    qed
  qed
next
  case (2 idx xs v1)
  then show ?case by simp
next
  case (3 idx xs v1 c cs)
  from "3.prems" have n: "\<not> length xs \<le> idx" by simp
  show ?case
  proof (cases "key c = xs ! idx")
    case True
    with "3.prems" n obtain c1 where c1: "grow (idx + 1) xs v1 c = Inr c1" and cs1: "cs1 = c1 # cs"
      by (auto split: sum.splits)
    from "3.prems" have "idx + 1 \<le> length xs" by simp
    from "3.IH"(1) [OF n True c1 this]
    have "grow (idx + 1) xs v2 c1 = Inr (put_value (drop (idx + 1) xs) v2 c1)" .
    moreover from grow_key [OF c1] True have "key c1 = xs ! idx" by simp
    ultimately show ?thesis using cs1 n by simp
  next
    case False
    with "3.prems" n obtain cs' where l: "grow_loop idx xs v1 cs = Inr (Some cs')" and cs1: "cs1 = c # cs'"
      by (auto split: sum.splits option.splits)
    from "3.IH"(2) [OF n False l "3.prems"(2)] cs1 n False show ?thesis by simp
  qed
qed

text \<open>
  Growing along the segments after an additional first segment gives the same trie up to
  the patterns of the new nodes.
\<close>

lemma forget_patterns_eq:
  "forget_patterns t1 = forget_patterns (WildcardTrie sep k p v cs) \<Longrightarrow>
   \<exists>p1 cs1. t1 = WildcardTrie sep k p1 v cs1 \<and> map forget_patterns cs1 = map forget_patterns cs"
  by (cases t1) simp

lemma forget_patterns_key: "forget_patterns t1 = forget_patterns t2 \<Longrightarrow> key t1 = key t2"
  by (cases t1; cases t2) simp

lemma grow_shift:
  fixes t2 :: "'v wildcardTrie" and cs2 :: "'v wildcardTrie list"
  shows "forget_patterns t1 = forget_patterns t2 \<Longrightarrow>
           map_sum id forget_patterns (grow (Suc idx) (x # xs) v t1)
             = map_sum id forget_patterns (grow idx xs v t2)"
    and "map forget_patterns cs1 = map forget_patterns cs2 \<Longrightarrow>
           map_sum id (map_option (map forget_patterns)) (grow_loop (Suc idx) (x # xs) v cs1)
             = map_sum id (map_option (map forget_patterns)) (grow_loop idx xs v cs2)"
proof (induction idx xs v t2 and idx xs v cs2 arbitrary: t1 and cs1 rule: grow_grow_loop.induct)
  case (1 idx xs v sep k p old cs)
  from forget_patterns_eq [OF "1.prems"] obtain p1 cs1 where
    t1: "t1 = WildcardTrie sep k p1 old cs1" and cs: "map forget_patterns cs1 = map forget_patterns cs"
    by blast
  show ?case
  proof (cases "length xs = idx")
    case True
    with t1 cs show ?thesis by simp
  next
    case ne: False
    note loops = "1.IH"(1) [OF ne cs]
    show ?thesis
    proof (cases "grow_loop idx xs v cs")
      case (Inl e)
      with loops have "grow_loop (Suc idx) (x # xs) v cs1 = Inl e"
        by (cases "grow_loop (Suc idx) (x # xs) v cs1") auto
      with Inl t1 ne show ?thesis by simp
    next
      case (Inr r)
      show ?thesis
      proof (cases r)
        case (Some cs')
        with Inr loops obtain cs1' where
          l1: "grow_loop (Suc idx) (x # xs) v cs1 = Inr (Some cs1')"
          and eq: "map forget_patterns cs1' = map forget_patterns cs'"
          by (cases "grow_loop (Suc idx) (x # xs) v cs1") auto
        with Inr Some t1 ne show ?thesis by simp
      next
        case None
        with Inr have l0: "grow_loop idx xs v cs = Inr None" by simp
        with loops have l1: "grow_loop (Suc idx) (x # xs) v cs1 = Inr None"
          by (cases "grow_loop (Suc idx) (x # xs) v cs1") auto
        show ?thesis
        proof (cases "idx < length xs")
          case False
          with l0 l1 t1 ne cs show ?thesis by simp
        next
          case lt: True
          let ?c = "newTrie sep (xs ! idx) (take (idx + 1) xs) :: 'v wildcardTrie"
          let ?c1 = "newTrie sep (xs ! idx) (x # take (idx + 1) xs) :: 'v wildcardTrie"
          have fc: "forget_patterns ?c1 = forget_patterns ?c" by (simp add: newTrie_def)
          show ?thesis
          proof (cases "length xs = idx + 1")
            case True
            with l0 l1 t1 ne lt cs show ?thesis by (simp add: Let_def)
          next
            case F2: False
            from "1.IH"(2) [OF ne l0 refl lt refl F2 fc]
            have rec: "map_sum id forget_patterns (grow (Suc (idx + 1)) (x # xs) v ?c1)
                = map_sum id forget_patterns (grow (idx + 1) xs v ?c)" .
            show ?thesis
            proof (cases "grow (idx + 1) xs v ?c")
              case (Inl e)
              with rec have "grow (Suc (idx + 1)) (x # xs) v ?c1 = Inl e"
                by (cases "grow (Suc (idx + 1)) (x # xs) v ?c1") auto
              with Inl l0 l1 t1 ne lt F2 show ?thesis by (simp add: Let_def)
            next
              case (Inr c')
              with rec obtain c1' where "grow (Suc (idx + 1)) (x # xs) v ?c1 = Inr c1'"
                and "forget_patterns c1' = forget_patterns c'"
                by (cases "grow (Suc (idx + 1)) (x # xs) v ?c1") auto
              with Inr l0 l1 t1 ne lt F2 cs show ?thesis by (simp add: Let_def)
            qed
          qed
        qed
      qed
    qed
  qed
next
  case (2 idx xs v)
  then show ?case by simp
next
  case (3 idx xs v c cs)
  from "3.prems" obtain c1 cs1' where cs1: "cs1 = c1 # cs1'"
    and fc: "forget_patterns c1 = forget_patterns c"
    and fcs: "map forget_patterns cs1' = map forget_patterns cs"
    by (cases cs1) auto
  from fc have kc: "key c1 = key c" by (rule forget_patterns_key)
  show ?case
  proof (cases "length xs \<le> idx")
    case True
    with cs1 show ?thesis by simp
  next
    case n: False
    show ?thesis
    proof (cases "key c = xs ! idx")
      case True
      note rec = "3.IH"(1) [OF n True fc]
      show ?thesis
      proof (cases "grow (idx + 1) xs v c")
        case (Inl e)
        with rec have "grow (Suc (idx + 1)) (x # xs) v c1 = Inl e"
          by (cases "grow (Suc (idx + 1)) (x # xs) v c1") auto
        with Inl cs1 n True kc show ?thesis by simp
      next
        case (Inr c')
        with rec obtain c1' where "grow (Suc (idx + 1)) (x # xs) v c1 = Inr c1'"
          and "forget_patterns c1' = forget_patterns c'"
          by (cases "grow (Suc (idx + 1)) (x # xs) v c1") auto
        with Inr cs1 n True kc fcs show ?thesis by simp
      qed
    next
      case False
      note rec = "3.IH"(2) [OF n False fcs]
      show ?thesis
      proof (cases "grow_loop idx xs v cs")
        case (Inl e)
        with rec have "grow_loop (Suc idx) (x # xs) v cs1' = Inl e"
          by (cases "grow_loop (Suc idx) (x # xs) v cs1'") auto
        with Inl cs1 n False kc show ?thesis by simp
      next
        case (Inr r)
        with rec obtain r1 where "grow_loop (Suc idx) (x # xs) v cs1' = Inr r1"
          and "map_option (map forget_patterns) r1 = map_option (map forget_patterns) r"
          by (cases "grow_loop (Suc idx) (x # xs) v cs1'") auto
        with Inr cs1 n False kc fc show ?thesis by (cases r; cases r1) auto
      qed
    qed
  qed
qed

text \<open>\<open>grow\<close> keeps every child where it is and puts a new child last.\<close>

lemma keeps_children_list_refl:
  "(\<And>c. c \<in> set cs \<Longrightarrow> keeps_children c c) \<Longrightarrow> keeps_children_list cs cs"
  by (induction cs) auto

lemma keeps_children_refl:
  fixes t :: "'v wildcardTrie" and cs :: "'v wildcardTrie list"
  shows "keeps_children t t" and "keeps_children_list cs cs"
proof -
  show t: "keeps_children t t" for t :: "'v wildcardTrie"
    by (induction t) (simp add: keeps_children_list_refl)
  show "keeps_children_list cs cs" by (rule keeps_children_list_refl) (rule t)
qed

lemma keeps_children_list_append:
  "keeps_children_list cs cs' \<Longrightarrow> keeps_children_list cs (cs' @ ds)"
proof (induction cs arbitrary: cs')
  case Nil
  show ?case by simp
next
  case (Cons c cs)
  then show ?case by (cases cs') auto
qed

lemma grow_keeps_children:
  fixes t :: "'v wildcardTrie" and cs :: "'v wildcardTrie list"
  shows "grow idx xs v t = Inr t' \<Longrightarrow> keeps_children t t'"
    and "grow_loop idx xs v cs = Inr (Some cs') \<Longrightarrow> keeps_children_list cs cs'"
proof (induction idx xs v t and idx xs v cs arbitrary: t' and cs' rule: grow_grow_loop.induct)
  case (1 idx xs v sep k p old cs)
  show ?case
  proof (cases "length xs = idx")
    case True
    with "1.prems" show ?thesis by (auto simp: keeps_children_refl)
  next
    case ne: False
    show ?thesis
    proof (cases "grow_loop idx xs v cs")
      case (Inl e)
      with ne "1.prems" show ?thesis by simp
    next
      case (Inr r)
      show ?thesis
      proof (cases r)
        case (Some cs1)
        with Inr ne "1.prems" have t': "t' = WildcardTrie sep k p old cs1" by simp
        from Inr Some have l1: "grow_loop idx xs v cs = Inr (Some cs1)" by simp
        from "1.IH"(1) [OF ne l1] t' show ?thesis by simp
      next
        case None
        with Inr ne "1.prems" obtain ds where "t' = WildcardTrie sep k p old (cs @ ds)"
          by (auto simp: Let_def split: if_splits sum.splits)
        then show ?thesis
          using keeps_children_list_append [OF keeps_children_refl(2), of cs ds] by simp
      qed
    qed
  qed
next
  case (2 idx xs v)
  then show ?case by simp
next
  case (3 idx xs v c cs)
  from "3.prems" have n: "\<not> length xs \<le> idx" by (auto split: if_splits)
  show ?case
  proof (cases "key c = xs ! idx")
    case True
    with "3.prems" n obtain c1 where c1: "grow (idx + 1) xs v c = Inr c1" and cs': "cs' = c1 # cs"
      by (auto split: sum.splits)
    from "3.IH"(1) [OF n True c1] cs' show ?thesis by (simp add: keeps_children_refl)
  next
    case False
    with "3.prems" n obtain cs'' where l: "grow_loop idx xs v cs = Inr (Some cs'')" and cs': "cs' = c # cs''"
      by (auto split: sum.splits option.splits)
    from "3.IH"(2) [OF n False l] cs' show ?thesis by (simp add: keeps_children_refl)
  qed
qed

lemma Add_keeps_children: "keeps_children t (snd (Add p v t))"
proof (cases "fst (Add p v t)")
  case (Some e)
  then have "snd (Add p v t) = t"
    by (auto simp: Add_def Let_def split: if_splits sum.splits)
  then show ?thesis by (simp add: keeps_children_refl)
next
  case None
  then obtain idx xs t' where "grow idx xs v t = Inr t'" and "snd (Add p v t) = t'"
    by (auto simp: Add_def Let_def split: if_splits sum.splits)
  then show ?thesis using grow_keeps_children(1) by fastforce
qed

section \<open>Lookup after insertion\<close>

lemma get_matching_node:
  assumes "key c = xs ! idx" and "idx < length xs"
  shows "get idx xs wc c =
     (if idx + 1 = length xs then Inr (val c, pattern c)
      else get_children (idx + 1) xs wc (children c))"
  using assms by (auto simp: get_unfold)

lemma get_after_grow_fresh:
  "grow idx xs v t = Inr t' \<Longrightarrow> idx < length xs \<Longrightarrow> children t = [] \<Longrightarrow>
   get_children idx xs wildcard (children t') = Inr (v, ''/'' @ go_join xs (separator t))"
proof (induction "length xs - idx" arbitrary: idx t t')
  case 0
  then show ?case by simp
next
  case (Suc n)
  obtain sep k p old cs where t: "t = WildcardTrie sep k p old cs" by (cases t)
  with Suc.prems have cs: "cs = []" by simp
  from Suc.prems have lt: "idx < length xs" by simp
  let ?c = "newTrie sep (xs ! idx) (take (idx + 1) xs) :: 'a wildcardTrie"
  show ?case
  proof (cases "length xs = idx + 1")
    case True
    let ?c1 = "WildcardTrie sep (xs ! idx) (pattern ?c) v [] :: 'a wildcardTrie"
    from True t cs lt Suc.prems have t': "t' = WildcardTrie sep k p old [?c1]"
      by (simp add: Let_def)
    from True have "take (idx + 1) xs = xs" by simp
    then have "pattern ?c = ''/'' @ go_join xs sep" by simp
    moreover have "get idx xs wildcard ?c1 = Inr (v, pattern ?c)"
      using get_matching_node [of ?c1 xs idx wildcard] lt True by simp
    ultimately show ?thesis using t t' by simp
  next
    case F2: False
    from F2 t cs lt Suc.prems obtain c1 where
      c1: "grow (idx + 1) xs v ?c = Inr c1" and t': "t' = WildcardTrie sep k p old [c1]"
      by (auto simp: Let_def split: sum.splits)
    from lt F2 have lt1: "idx + 1 < length xs" by simp
    from Suc.hyps(2) have "n = length xs - (idx + 1)" by simp
    from Suc.hyps(1) [OF this c1 lt1]
    have g: "get_children (idx + 1) xs wildcard (children c1) = Inr (v, ''/'' @ go_join xs sep)" by simp
    from grow_key [OF c1] have k1: "key c1 = xs ! idx" by simp
    from get_matching_node [OF k1 lt, of wildcard] F2 g
    have "get idx xs wildcard c1 = Inr (v, ''/'' @ go_join xs sep)" by simp
    with t t' show ?thesis by simp
  qed
qed

lemma node_at_Cons: "node_at (x # xs) t = node_at_children x xs (children t)"
  by (cases t) simp

lemma unshadowed_Cons: "unshadowed (x # xs) t = unshadowed_children x xs (children t)"
  by (cases t) simp

lemma unshadowed_childless: "children t = [] \<Longrightarrow> unshadowed ys t"
  by (cases ys) (simp_all add: unshadowed_Cons)

lemma not_yields_get:
  assumes "idx < length xs" and "\<not> yields 0 (drop idx xs) wc c"
  shows "\<exists>v. get idx xs wc c = Inr (v, [])"
proof -
  from get_total(1) [OF assms(1), of wc c] obtain v p where g: "get idx xs wc c = Inr (v, p)"
    by fastforce
  then have "get 0 (drop idx xs) wc c = Inr (v, p)" using get_drop [of idx xs wc c] by simp
  with assms(2) have "p = []" by (simp add: yields_def)
  with g show ?thesis by blast
qed

lemma get_children_skip_empty:
  "\<forall>c \<in> set cs. \<exists>v. get idx xs wc c = Inr (v, []) \<Longrightarrow>
   get_children idx xs wc (cs @ ds) = get_children idx xs wc ds"
  by (induction cs) auto

lemma unshadowed_children_no_key:
  "\<forall>c \<in> set cs. key c \<noteq> x \<Longrightarrow> unshadowed_children x xs cs \<Longrightarrow>
   \<forall>c \<in> set cs. \<not> yields 0 (x # xs) wildcard c"
  by (induction cs) auto

lemma node_at_children_append:
  "\<forall>c \<in> set cs. key c \<noteq> x \<Longrightarrow> key c1 = x \<Longrightarrow>
   node_at_children x ys (cs @ [c1]) = node_at ys c1"
  by (induction cs) auto

lemma get_after_grow_unshadowed:
  fixes t :: "'v wildcardTrie" and cs :: "'v wildcardTrie list"
  shows "grow idx xs v t = Inr t' \<Longrightarrow> idx < length xs \<Longrightarrow> unshadowed (drop idx xs) t \<Longrightarrow>
           \<exists>n. node_at (drop idx xs) t' = Some n \<and> val n = v \<and> pattern n \<noteq> []
              \<and> get_children idx xs wildcard (children t') = Inr (v, pattern n)"
    and "grow_loop idx xs v cs = Inr (Some cs') \<Longrightarrow> idx < length xs \<Longrightarrow>
           unshadowed_children (xs ! idx) (drop (idx + 1) xs) cs \<Longrightarrow>
           \<exists>n. node_at_children (xs ! idx) (drop (idx + 1) xs) cs' = Some n \<and> val n = v
              \<and> pattern n \<noteq> [] \<and> get_children idx xs wildcard cs' = Inr (v, pattern n)"
proof (induction idx xs v t and idx xs v cs arbitrary: t' and cs' rule: grow_grow_loop.induct)
  case (1 idx xs v sep k p old cs)
  from "1.prems" have lt: "idx < length xs" and ne: "length xs \<noteq> idx" by simp_all
  then have dr: "drop idx xs = xs ! idx # drop (idx + 1) xs" by (simp add: Cons_nth_drop_Suc)
  with "1.prems" have un: "unshadowed_children (xs ! idx) (drop (idx + 1) xs) cs" by simp
  show ?case
  proof (cases "grow_loop idx xs v cs")
    case (Inl e)
    with ne "1.prems" show ?thesis by simp
  next
    case (Inr r)
    show ?thesis
    proof (cases r)
      case (Some cs1)
      with Inr ne "1.prems" have t': "t' = WildcardTrie sep k p old cs1" by simp
      from Inr Some have l1: "grow_loop idx xs v cs = Inr (Some cs1)" by simp
      from "1.IH"(1) [OF ne l1 lt un] t' dr show ?thesis by simp
    next
      case None
      with Inr have l0: "grow_loop idx xs v cs = Inr None" by simp
      note keys = grow_loop_None_keys [OF l0 lt]
      from unshadowed_children_no_key [OF keys un] dr
      have "\<forall>c \<in> set cs. \<not> yields 0 (drop idx xs) wildcard c" by simp
      then have "\<forall>c \<in> set cs. \<exists>v. get idx xs wildcard c = Inr (v, [])"
        using not_yields_get [OF lt] by blast
      note skip = get_children_skip_empty [OF this]
      let ?c = "newTrie sep (xs ! idx) (take (idx + 1) xs) :: 'v wildcardTrie"
      show ?thesis
      proof (cases "length xs = idx + 1")
        case True
        let ?c1 = "WildcardTrie sep (xs ! idx) (pattern ?c) v [] :: 'v wildcardTrie"
        from True l0 ne lt "1.prems" have t': "t' = WildcardTrie sep k p old (cs @ [?c1])"
          by (simp add: Let_def)
        have "get idx xs wildcard ?c1 = Inr (v, pattern ?c)"
          using get_matching_node [of ?c1 xs idx wildcard] lt True by simp
        then have "get_children idx xs wildcard (cs @ [?c1]) = Inr (v, pattern ?c)"
          using skip [of "[?c1]"] by simp
        moreover have "node_at_children (xs ! idx) (drop (idx + 1) xs) (cs @ [?c1]) = Some ?c1"
          using node_at_children_append [OF keys, of ?c1 "drop (idx + 1) xs"] True by simp
        ultimately show ?thesis using t' dr by simp
      next
        case F2: False
        from F2 l0 ne lt "1.prems" obtain c1 where
          c1: "grow (idx + 1) xs v ?c = Inr c1" and t': "t' = WildcardTrie sep k p old (cs @ [c1])"
          by (auto simp: Let_def split: sum.splits)
        from lt F2 have lt1: "idx + 1 < length xs" by simp
        then have dr1: "drop (idx + 1) xs = xs ! (idx + 1) # drop (idx + 2) xs"
          by (simp add: Cons_nth_drop_Suc)
        have "unshadowed (drop (idx + 1) xs) ?c" by (rule unshadowed_childless) simp
        from "1.IH"(2) [OF ne l0 refl lt refl F2 c1 lt1 this]
        obtain n where n: "node_at (drop (idx + 1) xs) c1 = Some n" "val n = v" "pattern n \<noteq> []"
          and g: "get_children (idx + 1) xs wildcard (children c1) = Inr (v, pattern n)" by blast
        from grow_key [OF c1] have k1: "key c1 = xs ! idx" by simp
        from get_matching_node [OF k1 lt, of wildcard] F2 g
        have "get idx xs wildcard c1 = Inr (v, pattern n)" by simp
        with n have "get_children idx xs wildcard (cs @ [c1]) = Inr (v, pattern n)"
          using skip [of "[c1]"] by simp
        moreover have "node_at_children (xs ! idx) (drop (idx + 1) xs) (cs @ [c1]) = Some n"
          using node_at_children_append [OF keys k1] n by simp
        ultimately show ?thesis using t' dr n by simp
      qed
    qed
  qed
next
  case (2 idx xs v)
  then show ?case by simp
next
  case (3 idx xs v c cs)
  from "3.prems" have n: "\<not> length xs \<le> idx" and lt: "idx < length xs" by simp_all
  then have dr: "drop idx xs = xs ! idx # drop (idx + 1) xs" by (simp add: Cons_nth_drop_Suc)
  show ?case
  proof (cases "key c = xs ! idx")
    case True
    with "3.prems" n obtain c1 where c1: "grow (idx + 1) xs v c = Inr c1" and cs': "cs' = c1 # cs"
      by (auto split: sum.splits)
    from grow_key [OF c1] True have k1: "key c1 = xs ! idx" by simp
    show ?thesis
    proof (cases "length xs = idx + 1")
      case T2: True
      with "3.prems" True have "pattern c \<noteq> []" by simp
      moreover from grow_root [OF c1] T2 have "val c1 = v" and "pattern c1 = pattern c" by simp_all
      moreover from this get_matching_node [OF k1 lt, of wildcard] T2
      have "get idx xs wildcard c1 = Inr (v, pattern c)" by simp
      ultimately show ?thesis using cs' k1 T2 by simp
    next
      case F2: False
      with lt have lt1: "idx + 1 < length xs" by simp
      with "3.prems" True have "unshadowed (drop (idx + 1) xs) c" by simp
      from "3.IH"(1) [OF n True c1 lt1 this]
      obtain m where m: "node_at (drop (idx + 1) xs) c1 = Some m" "val m = v" "pattern m \<noteq> []"
        and g: "get_children (idx + 1) xs wildcard (children c1) = Inr (v, pattern m)" by blast
      from get_matching_node [OF k1 lt, of wildcard] F2 g
      have "get idx xs wildcard c1 = Inr (v, pattern m)" by simp
      with m cs' k1 show ?thesis by simp
    qed
  next
    case False
    with "3.prems" n obtain cs'' where l: "grow_loop idx xs v cs = Inr (Some cs'')" and cs': "cs' = c # cs''"
      by (auto split: sum.splits option.splits)
    from "3.prems" False have ny: "\<not> yields 0 (drop idx xs) wildcard c"
      and un: "unshadowed_children (xs ! idx) (drop (idx + 1) xs) cs" by (simp_all add: dr)
    from "3.IH"(2) [OF n False l lt un]
    obtain m where m: "node_at_children (xs ! idx) (drop (idx + 1) xs) cs'' = Some m" "val m = v"
        "pattern m \<noteq> []"
      and g: "get_children idx xs wildcard cs'' = Inr (v, pattern m)" by blast
    from not_yields_get [OF lt ny] obtain w where "get idx xs wildcard c = Inr (w, [])" by blast
    with g m cs' False show ?thesis by simp
  qed
qed

text \<open>
  Two patterns that part at one segment, inserted one after the other into a node without
  children: a lookup that the first one matches returns the first one's value and pattern.
\<close>

lemma first_inserted_wins:
  assumes "children t = []" and "idx \<le> length qs" and "k1 \<noteq> k2"
    and "k1 = y \<or> k1 = wildcard"
    and "grow idx (qs @ k1 # rs) v1 t = Inr t1"
    and "grow idx (qs @ k2 # rs) v2 t1 = Inr t2"
  shows "get_children idx (qs @ y # rs) wildcard (children t2)
           = Inr (v1, ''/'' @ go_join (qs @ k1 # rs) (separator t))"
  using assms
proof (induction "length qs - idx" arbitrary: idx t t1 t2)
  case 0
  let ?xs1 = "qs @ k1 # rs" and ?xs2 = "qs @ k2 # rs" and ?ys = "qs @ y # rs"
  from 0 have idx: "idx = length qs" by simp
  obtain sep k p old cs where t: "t = WildcardTrie sep k p old cs" by (cases t)
  with "0.prems" have cs: "cs = []" by simp
  have lt1: "idx < length ?xs1" and lt2: "idx < length ?xs2" and lty: "idx < length ?ys"
    using idx by simp_all
  have n1: "?xs1 ! idx = k1" and n2: "?xs2 ! idx = k2" and ny: "?ys ! idx = y"
    using idx by simp_all
  let ?c = "newTrie sep k1 (take (idx + 1) ?xs1) :: 'a wildcardTrie"
  have first: "\<exists>c1. t1 = WildcardTrie sep k p old [c1] \<and> key c1 = k1
      \<and> get idx ?ys wildcard c1 = Inr (v1, ''/'' @ go_join ?xs1 sep)"
  proof (cases "rs = []")
    case True
    then have len: "length ?xs1 = idx + 1" using idx by simp
    let ?c1 = "WildcardTrie sep k1 (pattern ?c) v1 [] :: 'a wildcardTrie"
    from len t cs lt1 n1 "0.prems"(5) have "t1 = WildcardTrie sep k p old [?c1]"
      by (simp add: Let_def)
    moreover from len have "take (idx + 1) ?xs1 = ?xs1" by simp
    then have "pattern ?c = ''/'' @ go_join ?xs1 sep" by simp
    moreover have "get idx ?ys wildcard ?c1 = Inr (v1, pattern ?c)"
      using "0.prems"(4) True idx by (auto simp: get_unfold)
    ultimately show ?thesis by simp
  next
    case False
    then have len: "length ?xs1 \<noteq> idx + 1" and lt1': "idx + 1 < length ?xs1"
      and lty': "idx + 1 < length ?ys" using idx by simp_all
    from len t cs lt1 n1 "0.prems"(5) obtain c1 where
      c1: "grow (idx + 1) ?xs1 v1 ?c = Inr c1" and t1: "t1 = WildcardTrie sep k p old [c1]"
      by (auto simp: Let_def split: sum.splits)
    from grow_key [OF c1] have k1: "key c1 = k1" by simp
    from get_after_grow_fresh [OF c1 lt1']
    have "get_children (idx + 1) ?xs1 wildcard (children c1) = Inr (v1, ''/'' @ go_join ?xs1 sep)"
      by simp
    moreover have "drop (idx + 1) ?ys = drop (idx + 1) ?xs1" using idx by simp
    then have "get_children (idx + 1) ?ys wildcard (children c1)
        = get_children (idx + 1) ?xs1 wildcard (children c1)"
      using get_children_drop [of "idx + 1" ?ys wildcard "children c1"]
        get_children_drop [of "idx + 1" ?xs1 wildcard "children c1"] by simp
    moreover have "get idx ?ys wildcard c1 = get_children (idx + 1) ?ys wildcard (children c1)"
      using "0.prems"(4) k1 ny lty lty' by (auto simp: get_unfold)
    ultimately show ?thesis using t1 k1 by simp
  qed
  then obtain c1 where t1: "t1 = WildcardTrie sep k p old [c1]" and k1: "key c1 = k1"
    and g: "get idx ?ys wildcard c1 = Inr (v1, ''/'' @ go_join ?xs1 sep)" by blast
  from k1 "0.prems"(3) n2 lt2 have "grow_loop idx ?xs2 v2 [c1] = Inr None" by simp
  with t1 "0.prems"(6) lt2 obtain c2 where "t2 = WildcardTrie sep k p old ([c1] @ [c2])"
    by (auto simp: Let_def split: if_splits sum.splits)
  with g t show ?case by simp
next
  case (Suc n)
  let ?xs1 = "qs @ k1 # rs" and ?xs2 = "qs @ k2 # rs" and ?ys = "qs @ y # rs"
  from Suc.hyps(2) have lt: "idx < length qs" by simp
  obtain sep k p old cs where t: "t = WildcardTrie sep k p old cs" by (cases t)
  with Suc.prems have cs: "cs = []" by simp
  from lt have n1: "?xs1 ! idx = qs ! idx" and n2: "?xs2 ! idx = qs ! idx"
    and ny: "?ys ! idx = qs ! idx" by (simp_all add: nth_append)
  from lt have lt1: "idx < length ?xs1" and len1: "length ?xs1 \<noteq> idx + 1"
    and lt2: "idx < length ?xs2" and len2: "length ?xs2 \<noteq> idx" 
    and lty: "idx < length ?ys" and leny: "idx + 1 \<noteq> length ?ys" by simp_all
  let ?c = "newTrie sep (qs ! idx) (take (idx + 1) ?xs1) :: 'a wildcardTrie"
  from len1 t cs lt1 n1 Suc.prems(5) obtain c1 where
    c1: "grow (idx + 1) ?xs1 v1 ?c = Inr c1" and t1: "t1 = WildcardTrie sep k p old [c1]"
    by (auto simp: Let_def split: sum.splits)
  from grow_key [OF c1] have k1: "key c1 = qs ! idx" by simp
  from t1 k1 n2 lt2 len2 Suc.prems(6) obtain c2 where
    c2: "grow (idx + 1) ?xs2 v2 c1 = Inr c2" and t2: "t2 = WildcardTrie sep k p old [c2]"
    by (auto split: sum.splits)
  from grow_key [OF c2] k1 have k2: "key c2 = qs ! idx" by simp
  from Suc.hyps(2) have "n = length qs - (idx + 1)" by simp
  moreover have "children ?c = []" by simp
  moreover from lt have "idx + 1 \<le> length qs" by simp
  ultimately have "get_children (idx + 1) ?ys wildcard (children c2)
      = Inr (v1, ''/'' @ go_join ?xs1 (separator ?c))"
    using Suc.prems(3,4) c1 c2 by (rule Suc.hyps(1))
  moreover have "get idx ?ys wildcard c2 = get_children (idx + 1) ?ys wildcard (children c2)"
    using get_matching_node [of c2 ?ys idx wildcard] k2 ny lty leny by simp
  ultimately show ?case using t t2 by simp
qed

section \<open>\<open>Add\<close> and \<open>Get\<close> on the split pattern\<close>

lemma Add_accepts:
  assumes sep: "separator t \<noteq> []" and ns: "\<not> suffix (separator t) p"
  shows "\<exists>t'. grow (if go_split p (separator t) ! 0 = [] then 1 else 0) (go_split p (separator t)) v t = Inr t'
            \<and> Add p v t = (None, t')"
proof -
  let ?xs = "go_split p (separator t)"
  let ?idx = "if ?xs ! 0 = [] then 1 else 0 :: nat"
  have ne: "?xs \<noteq> []" using sep by (rule go_split_not_Nil)
  have nopanic: "\<not> (length ?xs > 1 \<and> ?xs ! (length ?xs - 1) = [])"
  proof
    assume a: "length ?xs > 1 \<and> ?xs ! (length ?xs - 1) = []"
    with ne have "last ?xs = []" by (simp add: last_conv_nth)
    with sep have "last (go_split_from (separator t) [] p) = []" by (simp add: go_split_def)
    from go_split_from_last [OF this] ns have "p = []" by blast
    with sep have "?xs = [Nil]" by (simp add: go_split_def)
    with a show False by simp
  qed
  from ne have "?idx \<le> length ?xs" by (cases ?xs) auto
  from grow_total(1) [OF this] obtain t' where g: "grow ?idx ?xs v t = Inr t'" by blast
  with ne nopanic have "Add p v t = (None, t')" by (auto simp: Add_def Let_def)
  with g show ?thesis by blast
qed

lemma start_index_less:
  assumes sep: "sep \<noteq> []" and p: "p \<noteq> []"
  shows "(if go_split p sep ! 0 = [] then 1 else 0 :: nat) < length (go_split p sep)"
proof -
  let ?xs = "go_split p sep"
  have ne: "?xs \<noteq> []" using sep by (rule go_split_not_Nil)
  have "?xs \<noteq> [Nil]" using go_split_single [OF sep, of p "[]"] p by auto
  with ne show ?thesis by (cases ?xs) (auto simp: neq_Nil_conv)
qed

lemma segments_drop:
  "sep \<noteq> [] \<Longrightarrow>
   segments p sep = drop (if go_split p sep ! 0 = [] then 1 else 0) (go_split p sep)"
  by (simp add: segments_def Let_def go_split_not_Nil)

lemma Get_leading_separator_aux:
  assumes "separator t \<noteq> []" and "key t = []" and "q \<noteq> []" and "\<not> prefix (separator t) q"
  shows "Get (separator t @ q) t = Get q t"
proof -
  let ?xs = "go_split q (separator t)"
  have ne: "?xs \<noteq> []" using assms(1) by (rule go_split_not_Nil)
  have hd: "?xs ! 0 \<noteq> []" using go_split_hd [OF assms(1,3,4)] ne by (simp add: hd_conv_nth)
  have "Get (separator t @ q) t = get 0 ([] # ?xs) wildcard t"
    using assms(1) by (simp add: Get_def go_split_sep)
  also have "\<dots> = get_children (Suc 0) ([] # ?xs) wildcard (children t)"
    using ne assms(2) by (simp add: get_unfold)
  also have "\<dots> = get_children 0 ?xs wildcard (children t)" by (rule get_shift(2))
  also have "\<dots> = Get q t" using ne hd by (simp add: Get_def)
  finally show ?thesis .
qed

lemma Add_twice_facts:
  assumes sep: "separator t \<noteq> []" and ns: "\<not> suffix (separator t) p"
  shows "\<exists>t1 t2. Add p v1 t = (None, t1) \<and> Add p v2 t1 = (None, t2) \<and> Add p v2 t = (None, t2)
           \<and> grow (if go_split p (separator t) ! 0 = [] then 1 else 0) (go_split p (separator t)) v2 t
                = Inr t2
           \<and> t2 = put_value (segments p (separator t)) v2 t1
           \<and> separator t2 = separator t \<and> key t2 = key t"
proof -
  let ?sep = "separator t"
  let ?xs = "go_split p ?sep"
  let ?idx = "if ?xs ! 0 = [] then 1 else 0 :: nat"
  have ne: "?xs \<noteq> []" using sep by (rule go_split_not_Nil)
  from Add_accepts [OF sep ns, of v1] obtain t1 where
    g1: "grow ?idx ?xs v1 t = Inr t1" and a1: "Add p v1 t = (None, t1)" by blast
  from Add_accepts [OF sep ns, of v2] obtain t2 where
    g2: "grow ?idx ?xs v2 t = Inr t2" and a2: "Add p v2 t = (None, t2)" by blast
  from grow_root [OF g1] have s1: "separator t1 = ?sep" by simp
  from grow_root [OF g2] have s2: "separator t2 = ?sep" and k2: "key t2 = key t" by simp_all
  from s1 sep ns have sep1: "separator t1 \<noteq> []" and ns1: "\<not> suffix (separator t1) p" by simp_all
  from Add_accepts [OF sep1 ns1, of v2] s1 obtain t2' where
    g21: "grow ?idx ?xs v2 t1 = Inr t2'" and a21: "Add p v2 t1 = (None, t2')" by auto
  from grow_grow(1) [OF g1, of v2] g21 g2 have t2': "t2' = t2" by simp
  from ne have le: "?idx \<le> length ?xs" by (cases ?xs) auto
  from grow_put_value(1) [OF g1 le, of v2] g21
  have "t2' = put_value (drop ?idx ?xs) v2 t1" by simp
  with t2' segments_drop [OF sep, of p] have "t2 = put_value (segments p ?sep) v2 t1" by simp
  with a1 a21 a2 t2' g2 s2 k2 show ?thesis by blast
qed

lemma Get_walk:
  assumes sep: "separator t \<noteq> []" and p: "p \<noteq> []" and k: "key t = []"
  shows "Get p t = get_children (if go_split p (separator t) ! 0 = [] then 1 else 0)
                     (go_split p (separator t)) wildcard (children t)"
proof -
  let ?xs = "go_split p (separator t)"
  have ne: "?xs \<noteq> []" using sep by (rule go_split_not_Nil)
  show ?thesis
  proof (cases "?xs ! 0 = []")
    case True
    with start_index_less [OF sep p] have "1 < length ?xs" by simp
    with True k ne have "get 0 ?xs wildcard t = get_children 1 ?xs wildcard (children t)"
      by (auto simp: get_unfold)
    with True ne show ?thesis by (simp add: Get_def)
  next
    case False
    with ne show ?thesis by (simp add: Get_def)
  qed
qed

lemma Add_from_start:
  assumes "go_split p (separator t) = xs" and "hd xs \<noteq> []" and "last xs \<noteq> []" and "xs \<noteq> []"
  shows "\<exists>t'. grow 0 xs v t = Inr t' \<and> Add p v t = (None, t')"
proof -
  from grow_total(1) [of 0 xs v t] obtain t' where g: "grow 0 xs v t = Inr t'" by auto
  from assms have "xs ! 0 \<noteq> []" and "xs ! (length xs - 1) \<noteq> []"
    by (simp_all add: hd_conv_nth last_conv_nth)
  with assms(1,4) g have "Add p v t = (None, t')" by (simp add: Add_def Let_def)
  with g show ?thesis by blast
qed

lemma Get_from_start:
  assumes "go_split p (separator t) = xs" and "hd xs \<noteq> []" and "xs \<noteq> []"
  shows "Get p t = get_children 0 xs wildcard (children t)"
  using assms by (simp add: Get_def Let_def hd_conv_nth)

lemma first_added_wins:
  assumes s1: "go_split p1 ''/'' = qs @ k1 # rs" and s2: "go_split p2 ''/'' = qs @ k2 # rs"
    and sy: "go_split py ''/'' = qs @ y # rs"
    and ne: "k1 \<noteq> k2" and m: "k1 = y \<or> k1 = wildcard"
    and h1: "hd (qs @ k1 # rs) \<noteq> []" and h2: "hd (qs @ k2 # rs) \<noteq> []"
    and hy: "hd (qs @ y # rs) \<noteq> []"
    and l1: "last (k1 # rs) \<noteq> []" and l2: "last (k2 # rs) \<noteq> []"
  shows "Get py (snd (Add p2 v2 (snd (Add p1 v1 (newWildcardTrie ''/'')))))
           = Inr (v1, ''/'' @ p1)"
proof -
  let ?t = "newWildcardTrie ''/'' :: 'a wildcardTrie"
  have st: "separator ?t = ''/''" and ct: "children ?t = []" by (simp_all add: newWildcardTrie_def)
  from Add_from_start [of p1 ?t "qs @ k1 # rs" v1] s1 h1 l1 st
  obtain t1 where g1: "grow 0 (qs @ k1 # rs) v1 ?t = Inr t1" and a1: "Add p1 v1 ?t = (None, t1)"
    by auto
  from grow_root [OF g1] st have st1: "separator t1 = ''/''" by simp
  from Add_from_start [of p2 t1 "qs @ k2 # rs" v2] s2 h2 l2 st1
  obtain t2 where g2: "grow 0 (qs @ k2 # rs) v2 t1 = Inr t2" and a2: "Add p2 v2 t1 = (None, t2)"
    by auto
  from grow_root [OF g2] st1 have st2: "separator t2 = ''/''" by simp
  from Get_from_start [of py t2 "qs @ y # rs"] sy hy st2
  have "Get py t2 = get_children 0 (qs @ y # rs) wildcard (children t2)" by simp
  also have "\<dots> = Inr (v1, ''/'' @ go_join (qs @ k1 # rs) (separator ?t))"
    using ct _ ne m g1 g2 by (rule first_inserted_wins) simp
  also have "go_join (qs @ k1 # rs) (separator ?t) = p1"
    using go_join_split_from [of "''/''" "[]" p1] s1 st by (simp add: go_split_def)
  finally show ?thesis using a1 a2 by simp
qed

section \<open>The patterns of the nodes\<close>

lemma patterns_ok_sel:
  "patterns_ok sep0 pre c \<longleftrightarrow>
     separator c = sep0 \<and> pattern c = ''/'' @ go_join (pre @ [key c]) sep0
     \<and> list_all (patterns_ok sep0 (pre @ [key c])) (children c)"
  by (cases c) simp

lemma grow_patterns_ok:
  fixes t :: "'v wildcardTrie" and cs :: "'v wildcardTrie list"
  shows "grow idx xs v t = Inr t' \<Longrightarrow> idx \<le> length xs \<Longrightarrow> separator t = sep0 \<Longrightarrow>
           list_all (patterns_ok sep0 (take idx xs)) (children t) \<Longrightarrow>
           list_all (patterns_ok sep0 (take idx xs)) (children t')"
    and "grow_loop idx xs v cs = Inr (Some cs') \<Longrightarrow> idx < length xs \<Longrightarrow>
           list_all (patterns_ok sep0 (take idx xs)) cs \<Longrightarrow>
           list_all (patterns_ok sep0 (take idx xs)) cs'"
proof (induction idx xs v t and idx xs v cs arbitrary: t' and cs' rule: grow_grow_loop.induct)
  case (1 idx xs v sep k p old cs)
  from "1.prems" have sep: "sep = sep0" and ok: "list_all (patterns_ok sep0 (take idx xs)) cs"
    by simp_all
  show ?case
  proof (cases "length xs = idx")
    case True
    with "1.prems" show ?thesis by auto
  next
    case ne: False
    with "1.prems" have lt: "idx < length xs" by simp
    then have tk: "take (idx + 1) xs = take idx xs @ [xs ! idx]"
      by (simp add: take_Suc_conv_app_nth)
    show ?thesis
    proof (cases "grow_loop idx xs v cs")
      case (Inl e)
      with ne "1.prems" show ?thesis by simp
    next
      case (Inr r)
      show ?thesis
      proof (cases r)
        case (Some cs1)
        with Inr ne "1.prems" have t': "t' = WildcardTrie sep k p old cs1" by simp
        from Inr Some have l1: "grow_loop idx xs v cs = Inr (Some cs1)" by simp
        from "1.IH"(1) [OF ne l1 lt ok] t' show ?thesis by simp
      next
        case None
        with Inr have l0: "grow_loop idx xs v cs = Inr None" by simp
        let ?c = "newTrie sep (xs ! idx) (take (idx + 1) xs) :: 'v wildcardTrie"
        show ?thesis
        proof (cases "length xs = idx + 1")
          case True
          let ?c1 = "WildcardTrie sep (xs ! idx) (pattern ?c) v [] :: 'v wildcardTrie"
          from True l0 ne lt "1.prems" have t': "t' = WildcardTrie sep k p old (cs @ [?c1])"
            by (simp add: Let_def)
          have "patterns_ok sep0 (take idx xs) ?c1" using sep lt by (simp add: take_Suc_conv_app_nth)
          with ok t' sep show ?thesis by simp
        next
          case F2: False
          from F2 l0 ne lt "1.prems" obtain c1 where
            c1: "grow (idx + 1) xs v ?c = Inr c1" and t': "t' = WildcardTrie sep k p old (cs @ [c1])"
            by (auto simp: Let_def split: sum.splits)
          from lt have le: "idx + 1 \<le> length xs" by simp
          have "list_all (patterns_ok sep0 (take (idx + 1) xs)) (children ?c)" by simp
          from "1.IH"(2) [OF ne l0 refl lt refl F2 c1 le _ this] sep
          have ch: "list_all (patterns_ok sep0 (take (idx + 1) xs)) (children c1)" by simp
          from grow_root [OF c1] sep
          have "separator c1 = sep0" "key c1 = xs ! idx"
            "pattern c1 = ''/'' @ go_join (take (idx + 1) xs) sep0" by simp_all
          with ch lt have "patterns_ok sep0 (take idx xs) c1"
            by (simp add: patterns_ok_sel take_Suc_conv_app_nth)
          with ok t' show ?thesis by simp
        qed
      qed
    qed
  qed
next
  case (2 idx xs v)
  then show ?case by simp
next
  case (3 idx xs v c cs)
  from "3.prems" have n: "\<not> length xs \<le> idx" and lt: "idx < length xs"
    and okc: "patterns_ok sep0 (take idx xs) c"
    and ok: "list_all (patterns_ok sep0 (take idx xs)) cs" by simp_all
  from lt have tk: "take (idx + 1) xs = take idx xs @ [xs ! idx]"
    by (simp add: take_Suc_conv_app_nth)
  show ?case
  proof (cases "key c = xs ! idx")
    case True
    with "3.prems" n obtain c1 where c1: "grow (idx + 1) xs v c = Inr c1" and cs': "cs' = c1 # cs"
      by (auto split: sum.splits)
    from okc True lt have sc: "separator c = sep0"
      and pc: "pattern c = ''/'' @ go_join (take (idx + 1) xs) sep0"
      and cc: "list_all (patterns_ok sep0 (take (idx + 1) xs)) (children c)"
      by (simp_all add: patterns_ok_sel take_Suc_conv_app_nth)
    from lt have le: "idx + 1 \<le> length xs" by simp
    from "3.IH"(1) [OF n True c1 le sc cc]
    have "list_all (patterns_ok sep0 (take (idx + 1) xs)) (children c1)" .
    moreover from grow_root [OF c1] sc pc True
    have "separator c1 = sep0" "key c1 = xs ! idx"
      "pattern c1 = ''/'' @ go_join (take (idx + 1) xs) sep0" by simp_all
    ultimately have "patterns_ok sep0 (take idx xs) c1" using lt
      by (simp add: patterns_ok_sel take_Suc_conv_app_nth)
    with ok cs' show ?thesis by simp
  next
    case False
    with "3.prems" n obtain cs'' where l: "grow_loop idx xs v cs = Inr (Some cs'')" and cs': "cs' = c # cs''"
      by (auto split: sum.splits option.splits)
    from "3.IH"(2) [OF n False l lt ok] okc cs' show ?thesis by simp
  qed
qed

lemma Add_patterns_ok:
  assumes sep: "separator t \<noteq> []" and np: "\<not> prefix (separator t) p" and ok: "root_patterns_ok t"
  shows "root_patterns_ok (snd (Add p v t))"
proof (cases "fst (Add p v t)")
  case (Some e)
  then have "snd (Add p v t) = t"
    by (auto simp: Add_def Let_def split: if_splits sum.splits)
  with ok show ?thesis by simp
next
  case None
  let ?xs = "go_split p (separator t)"
  let ?idx = "if ?xs ! 0 = [] then 1 else 0 :: nat"
  have ne: "?xs \<noteq> []" using sep by (rule go_split_not_Nil)
  from None obtain t' where g: "grow ?idx ?xs v t = Inr t'" and a: "snd (Add p v t) = t'"
    by (auto simp: Add_def Let_def split: if_splits sum.splits)
  from grow_root [OF g] have s': "separator t' = separator t" by simp
  show ?thesis
  proof (cases "p = []")
    case True
    with sep have "?xs = [Nil]" by (simp add: go_split_def)
    with g have "t' = WildcardTrie (separator t) (key t) (pattern t) v (children t)"
      by (cases t) simp
    with ok a show ?thesis by (simp add: root_patterns_ok_def)
  next
    case False
    from go_split_hd [OF sep False np] ne have "?xs ! 0 \<noteq> []" by (simp add: hd_conv_nth)
    then have i0: "?idx = 0" by simp
    from ok have "list_all (patterns_ok (separator t) (take 0 ?xs)) (children t)"
      by (simp add: root_patterns_ok_def)
    from grow_patterns_ok(1) [OF g [unfolded i0] _ refl this]
    have "list_all (patterns_ok (separator t) []) (children t')" by simp
    with s' a show ?thesis by (simp add: root_patterns_ok_def)
  qed
qed

text \<open>
  As long as no pattern is inserted with a leading separator, every node below the root
  has the pattern \<open>/\<close> followed by the keys from the root to it, joined by the separator.
\<close>

lemma patterns_ok_without_leading_separator:
  assumes sep: "sep \<noteq> []" and np: "\<forall>(p, v) \<in> set ops. \<not> prefix sep p"
  shows "root_patterns_ok (add_all ops (newWildcardTrie sep))"
proof -
  have "separator t = sep \<Longrightarrow> root_patterns_ok t \<Longrightarrow> \<forall>(p, v) \<in> set ops. \<not> prefix sep p \<Longrightarrow>
        root_patterns_ok (add_all ops t)" for t :: "'a wildcardTrie"
  proof (induction ops arbitrary: t)
    case Nil
    then show ?case by simp
  next
    case (Cons op ops)
    obtain p v where op: "op = (p, v)" by (cases op)
    from Cons.prems op sep have "root_patterns_ok (snd (Add p v t))"
      by (intro Add_patterns_ok) auto
    moreover from Cons.prems sep have "separator (snd (Add p v t)) = sep"
      using Add_root [of t p v] by simp
    ultimately show ?case using Cons.IH [of "snd (Add p v t)"] Cons.prems op by simp
  qed
  from this [of "newWildcardTrie sep"] np show ?thesis
    by (simp add: newWildcardTrie_def root_patterns_ok_def)
qed

section \<open>Patterns inserted with a leading separator\<close>

text \<open>
  Claim C1. With separator \<open>/\<close>, after \<open>Add("/foo/bar", 3)\<close> and \<open>Add("/foo/*", 99)\<close> on
  the empty trie, the claim expects \<open>Get("/foo/bar") = (3, "/foo/bar")\<close>,
  \<open>Get("/foo/anything") = (99, "/foo/*")\<close> and no match for \<open>Get("/foo/bar/extra")\<close>.
  The values and the missing match are as claimed, but the patterns reported are
  \<open>//foo/bar\<close> and \<open>//foo/*\<close>: \<open>grow\<close> hands \<open>newTrie\<close> the slice \<open>xs[:idx+1]\<close>, which
  still holds the empty first segment that \<open>Add\<close> skipped, and \<open>newTrie\<close> puts a \<open>/\<close>
  in front of the joined slice. With the same two patterns inserted without the leading
  separator the patterns reported are the claimed ones.
\<close>

theorem wildcard_example_reports_doubled_separator:
  "Get ''/foo/bar''
     (snd (Add ''/foo/*'' (Some 99) (snd (Add ''/foo/bar'' (Some 3) (newWildcardTrie ''/'')))))
     = Inr (Some (3::nat), ''//foo/bar'')
   \<and> Get ''/foo/anything''
     (snd (Add ''/foo/*'' (Some 99) (snd (Add ''/foo/bar'' (Some 3) (newWildcardTrie ''/'')))))
     = Inr (Some (99::nat), ''//foo/*'')
   \<and> Get ''/foo/bar/extra''
     (snd (Add ''/foo/*'' (Some 99) (snd (Add ''/foo/bar'' (Some 3) (newWildcardTrie ''/'')))))
     = Inr (None :: nat option, [])
   \<and> Get ''/foo/bar''
     (snd (Add ''foo/*'' (Some 99) (snd (Add ''foo/bar'' (Some 3) (newWildcardTrie ''/'')))))
     = Inr (Some (3::nat), ''/foo/bar'')
   \<and> Get ''/foo/anything''
     (snd (Add ''foo/*'' (Some 99) (snd (Add ''foo/bar'' (Some 3) (newWildcardTrie ''/'')))))
     = Inr (Some (99::nat), ''/foo/*'')"
  by (simp add: Get_def Add_def go_split_def newWildcardTrie_def newTrie_def wildcard_def)

text \<open>
  Claim C4. Every non-root node's \<open>pattern\<close> should be the separator followed by the
  segments from the root joined by the separator. After \<open>Add("/foo", 1)\<close> on the empty
  trie with separator \<open>/\<close> the node \<open>foo\<close> has the pattern \<open>//foo\<close>, and after
  \<open>Add("foo.bar", 1)\<close> with separator \<open>.\<close> the nodes have the patterns \<open>/foo\<close> and
  \<open>/foo.bar\<close>, where the claim has \<open>/foo\<close>, and \<open>.foo\<close> and \<open>.foo.bar\<close>. What the
  claim says does hold when the separator is \<open>/\<close> and no pattern is inserted with a
  leading separator (\<open>patterns_ok_without_leading_separator\<close>).
\<close>

theorem pattern_of_new_nodes_examples:
  "Add ''/foo'' (Some (1::nat)) (newWildcardTrie ''/'')
     = (None, WildcardTrie ''/'' [] [] None [WildcardTrie ''/'' ''foo'' ''//foo'' (Some 1) []])
   \<and> Add ''foo.bar'' (Some (1::nat)) (newWildcardTrie ''.'')
     = (None, WildcardTrie ''.'' [] [] None
                [WildcardTrie ''.'' ''foo'' ''/foo'' None
                   [WildcardTrie ''.'' ''bar'' ''/foo.bar'' (Some 1) []]])"
  by (simp add: Add_def go_split_def newWildcardTrie_def newTrie_def)

section \<open>A node without a value at the end of the path\<close>

text \<open>
  Claim C7. When only \<open>/foo/bar\<close> has been inserted, \<open>Get("/foo")\<close> should report no
  match: no value and the empty pattern. \<open>get\<close> returns the node's value and pattern
  without looking at the value, so the result is no value with the pattern of the node
  \<open>foo\<close>, which is not empty (and \<open>treeMux.Handler\<close> takes a non-empty pattern for a
  match). The same happens without the leading separator.
\<close>

theorem get_valueless_node_reports_pattern:
  "Get ''/foo'' (snd (Add ''/foo/bar'' v (newWildcardTrie ''/''))) = Inr (None, ''//foo'')
   \<and> Get ''foo'' (snd (Add ''foo/bar'' v (newWildcardTrie ''/''))) = Inr (None, ''/foo'')"
  by (simp add: Get_def Add_def go_split_def newWildcardTrie_def newTrie_def wildcard_def)


section \<open>First match wins\<close>

text \<open>
  Claim C2. At every level of the walk the children are tried in the order of the
  children list, and the result is that of the earliest child whose subtree yields a
  non-empty matched pattern: for a node \<open>n\<close> that matches its segment and is not at the
  last segment, and for the root in \<open>Get\<close> on every path, with or without a leading
  separator. The children list is in the order of insertion: \<open>Add\<close> leaves every child
  at its position and puts a new child last. Literal or wildcard makes no difference.
  For two patterns that are the same but for one segment, the wildcard in the one and a
  literal in the other, inserted with values into the empty trie with separator \<open>/\<close>, the lookup of
  the literal pattern returns the value and pattern of the one inserted first: the
  wildcard's when it was first, the literal's with the insertions in the other order.
  So after \<open>Add("foo/*", 99)\<close> and then \<open>Add("foo/bar", 3)\<close>, \<open>Get("foo/bar")\<close> is
  \<open>(99, "/foo/*")\<close>, and \<open>(3, "/foo/bar")\<close> with \<open>Add("foo/bar", 3)\<close> first.
\<close>

theorem get_first_match_wins:
  "(idx + 1 < length xs \<and> (xs ! idx = key n \<or> key n = wildcard)
       \<longrightarrow> get idx xs wildcard n = first_match (idx + 1) xs wildcard (children n))
   \<and> (separator t \<noteq> [] \<longrightarrow>
        Get path t =
          (if hd (go_split path (separator t)) \<noteq> []
           then first_match 0 (go_split path (separator t)) wildcard (children t)
           else if key t \<noteq> [] \<and> key t \<noteq> wildcard then Inr (None, [])
           else if length (go_split path (separator t)) = 1 then Inr (val t, pattern t)
           else first_match 1 (go_split path (separator t)) wildcard (children t)))
   \<and> keeps_children t (snd (Add p v t))
   \<and> (go_split pw ''/'' = qs @ wildcard # rs \<and> go_split pl ''/'' = qs @ seg # rs
        \<and> seg \<noteq> wildcard \<and> seg \<noteq> [] \<and> hd (qs @ [seg]) \<noteq> [] \<and> last (seg # rs) \<noteq> []
        \<and> a \<noteq> None \<and> b \<noteq> None
       \<longrightarrow> Get pl (snd (Add pl b (snd (Add pw a (newWildcardTrie ''/''))))) = Inr (a, ''/'' @ pw)
         \<and> Get pl (snd (Add pw a (snd (Add pl b (newWildcardTrie ''/''))))) = Inr (b, ''/'' @ pl))
   \<and> Get ''foo/bar'' (snd (Add ''foo/bar'' (Some 3) (snd (Add ''foo/*'' (Some 99) (newWildcardTrie ''/'')))))
       = Inr (Some (99::nat), ''/foo/*'')
   \<and> Get ''foo/bar'' (snd (Add ''foo/*'' (Some 99) (snd (Add ''foo/bar'' (Some 3) (newWildcardTrie ''/'')))))
       = Inr (Some (3::nat), ''/foo/bar'')"
proof (intro conjI impI)
  assume a: "idx + 1 < length xs \<and> (xs ! idx = key n \<or> key n = wildcard)"
  then have "get idx xs wildcard n = get_children (idx + 1) xs wildcard (children n)"
    by (auto simp: get_unfold)
  with a show "get idx xs wildcard n = first_match (idx + 1) xs wildcard (children n)"
    by (simp add: get_children_first_match)
next
  assume sep: "separator t \<noteq> []"
  let ?xs = "go_split path (separator t)"
  have ne: "?xs \<noteq> []" using sep by (rule go_split_not_Nil)
  then have len: "0 < length ?xs" by simp
  show "Get path t =
          (if hd ?xs \<noteq> [] then first_match 0 ?xs wildcard (children t)
           else if key t \<noteq> [] \<and> key t \<noteq> wildcard then Inr (None, [])
           else if length ?xs = 1 then Inr (val t, pattern t)
           else first_match 1 ?xs wildcard (children t))"
  proof (cases "hd ?xs \<noteq> []")
    case True
    with ne have "Get path t = get_children 0 ?xs wildcard (children t)"
      by (simp add: Get_def hd_conv_nth)
    with True len show ?thesis by (simp add: get_children_first_match)
  next
    case False
    with ne have h: "?xs ! 0 = []" by (simp add: hd_conv_nth)
    with ne have G: "Get path t = get 0 ?xs wildcard t" by (simp add: Get_def)
    show ?thesis
    proof (cases "key t \<noteq> [] \<and> key t \<noteq> wildcard")
      case True
      with h ne G False show ?thesis by (auto simp: get_unfold)
    next
      case m: False
      show ?thesis
      proof (cases "length ?xs = 1")
        case True
        with h m ne G False show ?thesis by (auto simp: get_unfold)
      next
        case l: False
        with ne have l1: "1 < length ?xs" by (cases ?xs) auto
        with h m G have "Get path t = get_children 1 ?xs wildcard (children t)"
          by (auto simp: get_unfold)
        with l1 l m False show ?thesis by (auto simp: get_children_first_match)
      qed
    qed
  qed
next
  show "keeps_children t (snd (Add p v t))" by (rule Add_keeps_children)
next
  assume a: "go_split pw ''/'' = qs @ wildcard # rs \<and> go_split pl ''/'' = qs @ seg # rs
        \<and> seg \<noteq> wildcard \<and> seg \<noteq> [] \<and> hd (qs @ [seg]) \<noteq> [] \<and> last (seg # rs) \<noteq> []
        \<and> a \<noteq> None \<and> b \<noteq> None"
  then have hl: "hd (qs @ seg # rs) \<noteq> []" and hw: "hd (qs @ wildcard # rs) \<noteq> []"
    and lw: "last (wildcard # rs) \<noteq> []"
    by (cases qs; auto simp: wildcard_def)+
  from a hl hw lw
  show "Get pl (snd (Add pl b (snd (Add pw a (newWildcardTrie ''/''))))) = Inr (a, ''/'' @ pw)"
    by (intro first_added_wins [where qs = qs and rs = rs and ?k1.0 = wildcard and ?k2.0 = seg and y = seg])
       auto
  from a hl hw lw
  show "Get pl (snd (Add pw a (snd (Add pl b (newWildcardTrie ''/''))))) = Inr (b, ''/'' @ pl)"
    by (intro first_added_wins [where qs = qs and rs = rs and ?k1.0 = seg and ?k2.0 = wildcard and y = seg])
       auto
qed (simp_all add: Get_def Add_def go_split_def newWildcardTrie_def newTrie_def wildcard_def)

theorem get_first_match_wins_witness:
  "0 + 1 < length [''foo'', ''bar'']
   \<and> [''foo'', ''bar''] ! 0 = key (WildcardTrie ''/'' ''foo'' ''/foo'' None
         [WildcardTrie ''/'' ''*'' ''/foo/*'' (Some (99::nat)) [],
          WildcardTrie ''/'' ''bar'' ''/foo/bar'' (Some 3) []])
   \<and> get 0 [''foo'', ''bar''] wildcard
        (WildcardTrie ''/'' ''foo'' ''/foo'' None
           [WildcardTrie ''/'' ''*'' ''/foo/*'' (Some (99::nat)) [],
            WildcardTrie ''/'' ''bar'' ''/foo/bar'' (Some 3) []])
      = Inr (Some 99, ''/foo/*'')
   \<and> separator (WildcardTrie ''/'' [] [] None
           [WildcardTrie ''/'' ''foo'' ''/foo'' None
              [WildcardTrie ''/'' ''*'' ''/foo/*'' (Some (99::nat)) [],
               WildcardTrie ''/'' ''bar'' ''/foo/bar'' (Some 3) []]]) \<noteq> []
   \<and> Get ''/foo/bar''
        (WildcardTrie ''/'' [] [] None
           [WildcardTrie ''/'' ''foo'' ''/foo'' None
              [WildcardTrie ''/'' ''*'' ''/foo/*'' (Some (99::nat)) [],
               WildcardTrie ''/'' ''bar'' ''/foo/bar'' (Some 3) []]])
      = Inr (Some 99, ''/foo/*'')
   \<and> keeps_children
        (WildcardTrie ''/'' [] [] None
           [WildcardTrie ''/'' ''foo'' ''/foo'' None
              [WildcardTrie ''/'' ''*'' ''/foo/*'' (Some (99::nat)) [],
               WildcardTrie ''/'' ''bar'' ''/foo/bar'' (Some 3) []]])
        (snd (Add ''moo'' (Some 7)
           (WildcardTrie ''/'' [] [] None
              [WildcardTrie ''/'' ''foo'' ''/foo'' None
                 [WildcardTrie ''/'' ''*'' ''/foo/*'' (Some (99::nat)) [],
                  WildcardTrie ''/'' ''bar'' ''/foo/bar'' (Some 3) []]])))
   \<and> go_split ''foo/*/x'' ''/'' = [''foo''] @ wildcard # [''x'']
   \<and> go_split ''foo/bar/x'' ''/'' = [''foo''] @ ''bar'' # [''x'']
   \<and> ''bar'' \<noteq> wildcard \<and> ''bar'' \<noteq> [] \<and> hd ([''foo''] @ [''bar'']) \<noteq> []
   \<and> last (''bar'' # [''x'']) \<noteq> []
   \<and> Some (99::nat) \<noteq> None \<and> Some (3::nat) \<noteq> None
   \<and> Get ''foo/bar/x'' (snd (Add ''foo/bar/x'' (Some 3)
          (snd (Add ''foo/*/x'' (Some 99) (newWildcardTrie ''/'')))))
      = Inr (Some (99::nat), ''/foo/*/x'')
   \<and> Get ''foo/bar/x'' (snd (Add ''foo/*/x'' (Some 99)
          (snd (Add ''foo/bar/x'' (Some 3) (newWildcardTrie ''/'')))))
      = Inr (Some (3::nat), ''/foo/bar/x'')"
  using get_first_match_wins
    [where idx = 0 and xs = "[''foo'', ''bar'']" and path = "''/foo/bar''"
       and p = "''moo''" and v = "Some (7::nat)"
       and pw = "''foo/*/x''" and pl = "''foo/bar/x''" and qs = "[''foo'']" and seg = "''bar''"
       and rs = "[''x'']" and a = "Some (99::nat)" and b = "Some 3"
       and n = "WildcardTrie ''/'' ''foo'' ''/foo'' None
                  [WildcardTrie ''/'' ''*'' ''/foo/*'' (Some (99::nat)) [],
                   WildcardTrie ''/'' ''bar'' ''/foo/bar'' (Some 3) []]"
       and t = "WildcardTrie ''/'' [] [] None
                  [WildcardTrie ''/'' ''foo'' ''/foo'' None
                     [WildcardTrie ''/'' ''*'' ''/foo/*'' (Some (99::nat)) [],
                      WildcardTrie ''/'' ''bar'' ''/foo/bar'' (Some 3) []]]"]
  by (simp add: go_split_def first_match_def yields_def wildcard_def Add_def Get_def
        newTrie_def newWildcardTrie_def)

section \<open>The leading separator\<close>

text \<open>
  Claim C3, as the code has it. For a non-empty pattern or path \<open>q\<close> that does not begin
  with the separator: \<open>Add(separator + q, v)\<close> and \<open>Add(q, v)\<close> on the same trie panic
  or succeed together and leave tries with the same separator, key, value and children
  at every node (the patterns are not compared); and \<open>Get(separator + q)\<close> and \<open>Get(q)\<close>
  return the same result on every trie whose root has the empty key.
\<close>

theorem leading_separator_optional:
  assumes sep: "separator t \<noteq> []" and q: "q \<noteq> []" and np: "\<not> prefix (separator t) q"
  shows "fst (Add (separator t @ q) v t) = fst (Add q v t)
       \<and> forget_patterns (snd (Add (separator t @ q) v t)) = forget_patterns (snd (Add q v t))
       \<and> (key t = [] \<longrightarrow> Get (separator t @ q) t = Get q t)"
proof -
  let ?sep = "separator t"
  let ?xs = "go_split q ?sep"
  have ne: "?xs \<noteq> []" using sep by (rule go_split_not_Nil)
  have hd: "?xs ! 0 \<noteq> []" using go_split_hd [OF sep q np] ne by (simp add: hd_conv_nth)
  have xs': "go_split (?sep @ q) ?sep = [] # ?xs" using sep by (rule go_split_sep)
  let ?panic = "length ?xs > 1 \<and> ?xs ! (length ?xs - 1) = []"
  have lastnth: "([] # ?xs) ! length ?xs = ?xs ! (length ?xs - 1)"
    using ne by (cases ?xs) auto
  have one: "?xs ! (length ?xs - 1) \<noteq> []" if "\<not> length ?xs > 1"
  proof -
    from that ne have "length ?xs - 1 = 0" by (cases ?xs) auto
    with hd show ?thesis by simp
  qed
  have A1: "Add (?sep @ q) v t =
      (if ?panic then (Some InvalidPattern, t)
       else case grow 1 ([] # ?xs) v t of Inl e \<Rightarrow> (Some e, t) | Inr t' \<Rightarrow> (None, t'))"
    using xs' lastnth one by (auto simp: Add_def Let_def)
  have A0: "Add q v t =
      (if ?panic then (Some InvalidPattern, t)
       else case grow 0 ?xs v t of Inl e \<Rightarrow> (Some e, t) | Inr t' \<Rightarrow> (None, t'))"
    using ne hd by (auto simp: Add_def Let_def)
  have sh: "map_sum id forget_patterns (grow (Suc 0) ([] # ?xs) v t)
      = map_sum id forget_patterns (grow 0 ?xs v t)"
    by (rule grow_shift(1)) simp
  have "fst (Add (?sep @ q) v t) = fst (Add q v t)
      \<and> forget_patterns (snd (Add (?sep @ q) v t)) = forget_patterns (snd (Add q v t))"
  proof (cases ?panic)
    case True
    with A1 A0 show ?thesis by simp
  next
    case False
    show ?thesis
    proof (cases "grow 0 ?xs v t")
      case (Inl e)
      with sh have "grow 1 ([] # ?xs) v t = Inl e"
        by (cases "grow (Suc 0) ([] # ?xs) v t") auto
      with Inl False A1 A0 show ?thesis by auto
    next
      case (Inr b)
      with sh obtain a where "grow 1 ([] # ?xs) v t = Inr a"
        and "forget_patterns a = forget_patterns b"
        by (cases "grow (Suc 0) ([] # ?xs) v t") auto
      with Inr False A1 A0 show ?thesis by auto
    qed
  qed
  moreover have "key t = [] \<longrightarrow> Get (?sep @ q) t = Get q t"
    using Get_leading_separator_aux [OF sep _ q np] by blast
  ultimately show ?thesis by blast
qed

theorem leading_separator_optional_witness:
  "separator (WildcardTrie ''/'' [] [] None [WildcardTrie ''/'' ''foo'' ''/foo'' (Some (2::nat)) []]) \<noteq> []
   \<and> ''foo/bar'' \<noteq> [] \<and> \<not> prefix ''/'' ''foo/bar''
   \<and> key (WildcardTrie ''/'' [] [] None [WildcardTrie ''/'' ''foo'' ''/foo'' (Some (2::nat)) []]) = []
   \<and> fst (Add ''/foo/bar'' (Some 3)
        (WildcardTrie ''/'' [] [] None [WildcardTrie ''/'' ''foo'' ''/foo'' (Some (2::nat)) []])) = None
   \<and> forget_patterns (snd (Add ''/foo/bar'' (Some 3)
        (WildcardTrie ''/'' [] [] None [WildcardTrie ''/'' ''foo'' ''/foo'' (Some (2::nat)) []])))
     = forget_patterns (snd (Add ''foo/bar'' (Some 3)
        (WildcardTrie ''/'' [] [] None [WildcardTrie ''/'' ''foo'' ''/foo'' (Some (2::nat)) []])))
   \<and> Get ''/foo/bar'' (WildcardTrie ''/'' [] [] None [WildcardTrie ''/'' ''foo'' ''/foo'' (Some (2::nat)) []])
     = Get ''foo/bar'' (WildcardTrie ''/'' [] [] None [WildcardTrie ''/'' ''foo'' ''/foo'' (Some (2::nat)) []])"
  using leading_separator_optional
    [of "WildcardTrie ''/'' [] [] None [WildcardTrie ''/'' ''foo'' ''/foo'' (Some (2::nat)) []]"
        "''foo/bar''" "Some 3"]
  by (simp add: Add_def go_split_def newTrie_def)

text \<open>
  The empty path does not begin with the separator, yet \<open>Get("/")\<close> and \<open>Get("")\<close> differ:
  the first looks among the root's children for a match of the empty segment, the second
  returns the root's own value and pattern.
\<close>

theorem Get_separator_differs_from_Get_empty:
  "\<not> prefix ''/'' []
   \<and> Get (''/'' @ []) (snd (Add ''*'' (Some (5::nat)) (newWildcardTrie ''/''))) = Inr (Some 5, ''/*'')
   \<and> Get [] (snd (Add ''*'' (Some (5::nat)) (newWildcardTrie ''/''))) = Inr (None, [])"
  by (simp add: Get_def Add_def go_split_def newWildcardTrie_def newTrie_def wildcard_def)

section \<open>Patterns that end with the separator\<close>

text \<open>
  Claim C6. When the pattern ends with the separator and its final split segment is
  empty, \<open>Add\<close> panics with "path cannot end with slash" and the trie is as before. For
  a separator without border, a single character for one, the final split segment of
  a pattern that ends with the separator is always empty.
\<close>

theorem Add_rejects_trailing_separator:
  assumes sep: "separator t \<noteq> []"
    and suf: "suffix (separator t) s"
    and fin: "last (go_split s (separator t)) = [] \<or> unbordered (separator t)"
  shows "Add s v t = (Some InvalidPattern, t)"
proof -
  let ?sep = "separator t"
  let ?xs = "go_split s ?sep"
  from suf obtain q where s: "s = q @ ?sep" by (auto simp: suffix_def)
  with sep have sne: "s \<noteq> []" by simp
  have xs: "?xs = go_split_from ?sep [] s" using sep by (simp add: go_split_def)
  have last: "last ?xs = []"
  proof (cases "unbordered ?sep")
    case True
    then show ?thesis using sep s xs go_split_from_trailing [of ?sep "[]" q] by simp
  next
    case False
    with fin show ?thesis by simp
  qed
  have ne: "?xs \<noteq> []" using xs by simp
  have "length ?xs \<noteq> 1"
  proof
    assume "length ?xs = 1"
    then obtain x where x: "?xs = [x]" by (cases ?xs) auto
    with last have "x = []" by simp
    moreover from x xs have "go_join [x] ?sep = s" using go_join_split_from [of ?sep "[]" s] by simp
    ultimately show False using sne by simp
  qed
  with ne have len: "length ?xs > 1" by (cases ?xs) auto
  from last ne have "?xs ! (length ?xs - 1) = []" by (simp add: last_conv_nth)
  with len ne show ?thesis by (simp add: Add_def Let_def)
qed

theorem Add_rejects_trailing_separator_witness:
  "separator (WildcardTrie ''/'' [] [] None [WildcardTrie ''/'' ''foo'' ''/foo'' (Some (1::nat)) []]) \<noteq> []
   \<and> suffix ''/'' ''foo/bar/''
   \<and> unbordered ''/''
   \<and> Add ''foo/bar/'' (Some 2) (WildcardTrie ''/'' [] [] None [WildcardTrie ''/'' ''foo'' ''/foo'' (Some (1::nat)) []])
       = (Some InvalidPattern, WildcardTrie ''/'' [] [] None [WildcardTrie ''/'' ''foo'' ''/foo'' (Some 1) []])"
  using Add_rejects_trailing_separator
    [of "WildcardTrie ''/'' [] [] None [WildcardTrie ''/'' ''foo'' ''/foo'' (Some (1::nat)) []]"
        "''foo/bar/''" "Some 2"]
  by (simp add: unbordered_def suffix_def)

section \<open>The root\<close>

text \<open>
  Claim C8, as the code has it. After any sequence of \<open>Add\<close> calls on the trie made by
  \<open>newWildcardTrie\<close> (with a non-empty separator) the root still has the empty key and the
  empty pattern; its value is the one given by the last \<open>Add\<close> with the empty pattern,
  and it has no value when no pattern in the sequence was empty.
\<close>

theorem root_after_adds:
  assumes "sep \<noteq> []"
  shows "key (add_all ops (newWildcardTrie sep)) = []
       \<and> pattern (add_all ops (newWildcardTrie sep)) = []
       \<and> separator (add_all ops (newWildcardTrie sep)) = sep
       \<and> val (add_all ops (newWildcardTrie sep)) = last_root_value ops None
       \<and> ((\<forall>(p, v) \<in> set ops. p \<noteq> []) \<longrightarrow> val (add_all ops (newWildcardTrie sep)) = None)"
proof -
  have gen: "separator t \<noteq> [] \<Longrightarrow>
       key (add_all ops t) = key t \<and> pattern (add_all ops t) = pattern t
       \<and> separator (add_all ops t) = separator t
       \<and> val (add_all ops t) = last_root_value ops (val t)" for t :: "'a wildcardTrie"
  proof (induction ops arbitrary: t)
    case Nil
    show ?case by (simp add: last_root_value_def)
  next
    case (Cons op ops)
    obtain p v where op: "op = (p, v)" by (cases op)
    from Cons.prems have r: "separator (snd (Add p v t)) = separator t \<and> key (snd (Add p v t)) = key t
       \<and> pattern (snd (Add p v t)) = pattern t
       \<and> val (snd (Add p v t)) = (if p = [] then v else val t)" by (rule Add_root)
    with Cons.prems have "separator (snd (Add p v t)) \<noteq> []" by simp
    from Cons.IH [OF this] r op show ?case by (simp add: last_root_value_def)
  qed
  have keep: "(\<forall>(p, v) \<in> set ops. p \<noteq> []) \<Longrightarrow> last_root_value ops r = r" for r :: "'a option"
    by (induction ops arbitrary: r) (auto simp: last_root_value_def)
  from gen [of "newWildcardTrie sep"] assms keep [of None] show ?thesis
    by (simp add: newWildcardTrie_def)
qed

theorem root_after_adds_witness:
  "''/'' \<noteq> [] \<and> ''foo/bar'' \<noteq> [] \<and> ''/moo'' \<noteq> []
   \<and> key (add_all [(''foo/bar'', Some (1::nat)), (''/moo'', Some 2)] (newWildcardTrie ''/'')) = []
   \<and> val (add_all [(''foo/bar'', Some (1::nat)), (''/moo'', Some 2)] (newWildcardTrie ''/'')) = None"
  using root_after_adds [of "''/''" "[(''foo/bar'', Some (1::nat)), (''/moo'', Some 2)]"]
  by (simp add: Add_def go_split_def newWildcardTrie_def newTrie_def)

text \<open>\<open>Add("", 2)\<close> gives the root the value \<open>2\<close>.\<close>

theorem root_value_set_by_empty_pattern:
  "val (add_all [(''foo'', Some (1::nat)), ([], Some 2)] (newWildcardTrie ''/'')) = Some 2"
  by (simp add: Add_def go_split_def newWildcardTrie_def newTrie_def)

text \<open>
  Claim C9, as the code has it. On a trie whose root has the empty key, \<open>Get("")\<close>
  returns the root's own value and pattern (stated for a root that has a value or the
  empty pattern, as every root made by \<open>newWildcardTrie\<close> has). \<open>Get(separator)\<close> does
  not look at the root's value: the path splits into two empty segments, the root matches
  the first, and the walk goes on into the root's children. Where no child has the empty
  key or the wildcard (and a non-empty pattern) there is no match, whatever the root's
  value; where the earliest such child has a value, the result is that child's value and
  pattern.
\<close>

theorem Get_empty_and_separator:
  assumes "separator t \<noteq> []" and "key t = []"
  shows "(val t \<noteq> None \<or> pattern t = [] \<longrightarrow> Get [] t = Inr (val t, pattern t))
       \<and> (case first_final_child wildcard (children t) of
             None \<Rightarrow> Get (separator t) t = Inr (None, [])
           | Some c \<Rightarrow> val c \<noteq> None \<longrightarrow> Get (separator t) t = Inr (val c, pattern c))"
proof -
  have "Get [] t = Inr (val t, pattern t)"
    using assms by (simp add: Get_def go_split_def get_unfold)
  moreover have "go_split (separator t) (separator t) = [Nil, Nil]"
    using assms(1) go_split_sep [of "separator t" "[]"] by (simp add: go_split_def)
  then have "Get (separator t) t = get_children 1 [Nil, Nil] wildcard (children t)"
    using assms(2) by (simp add: Get_def get_unfold)
  then have "Get (separator t) t =
      (case first_final_child wildcard (children t) of
         None \<Rightarrow> Inr (None, []) | Some c \<Rightarrow> Inr (val c, pattern c))"
    using get_children_final_child [of 1 "[Nil, Nil]" wildcard "children t"] by simp
  ultimately show ?thesis by (simp split: option.splits)
qed

theorem Get_empty_and_separator_witness:
  "separator (WildcardTrie ''/'' [] [] (Some (7::nat)) [WildcardTrie ''/'' ''*'' ''/*'' (Some 5) []]) \<noteq> []
   \<and> key (WildcardTrie ''/'' [] [] (Some (7::nat)) [WildcardTrie ''/'' ''*'' ''/*'' (Some 5) []]) = []
   \<and> val (WildcardTrie ''/'' [] [] (Some (7::nat)) [WildcardTrie ''/'' ''*'' ''/*'' (Some 5) []]) \<noteq> None
   \<and> first_final_child wildcard
        (children (WildcardTrie ''/'' [] [] (Some (7::nat)) [WildcardTrie ''/'' ''*'' ''/*'' (Some 5) []]))
       = Some (WildcardTrie ''/'' ''*'' ''/*'' (Some 5) [])
   \<and> val (WildcardTrie ''/'' ''*'' ''/*'' (Some (5::nat)) []) \<noteq> None
   \<and> Get [] (WildcardTrie ''/'' [] [] (Some (7::nat)) [WildcardTrie ''/'' ''*'' ''/*'' (Some 5) []])
       = Inr (Some 7, [])
   \<and> Get ''/'' (WildcardTrie ''/'' [] [] (Some (7::nat)) [WildcardTrie ''/'' ''*'' ''/*'' (Some 5) []])
       = Inr (Some 5, ''/*'')"
  using Get_empty_and_separator
    [of "WildcardTrie ''/'' [] [] (Some (7::nat)) [WildcardTrie ''/'' ''*'' ''/*'' (Some 5) []]"]
  by (simp add: first_final_child_def wildcard_def)

text \<open>With a value at the root and no children, \<open>Get("/")\<close> finds nothing.\<close>

theorem Get_separator_ignores_root_value:
  "val (snd (Add [] (Some (7::nat)) (newWildcardTrie ''/''))) = Some 7
   \<and> Get ''/'' (snd (Add [] (Some (7::nat)) (newWildcardTrie ''/''))) = Inr (None, [])"
  by (simp add: Get_def Add_def go_split_def newWildcardTrie_def wildcard_def)

section \<open>Lookup paths that end with the separator\<close>

text \<open>
  Claim C10. For a lookup path that ends with the separator the wildcard child should
  match the empty final segment and no literal child should. After \<open>Add("foo//x", 3)\<close>
  and \<open>Add("foo/*", 99)\<close> the node \<open>foo\<close> has a child with the empty key before the
  wildcard, a node without a value; \<open>get\<close> returns its value and pattern at the last
  segment without looking at the value, so \<open>Get("foo/")\<close> is no value with the pattern
  \<open>/foo/\<close> where the claim has the wildcard's \<open>(99, "/foo/*")\<close>. After \<open>Add("foo/bar", 3)\<close>
  and \<open>Add("foo/*", 99)\<close> the result is the claimed one.
\<close>

theorem empty_segment_sibling_matches_first:
  "Get ''foo/'' (snd (Add ''foo/*'' (Some 99) (snd (Add ''foo//x'' (Some 3) (newWildcardTrie ''/'')))))
     = Inr (None :: nat option, ''/foo/'')
   \<and> Get ''foo/'' (snd (Add ''foo/*'' (Some 99) (snd (Add ''foo/bar'' (Some 3) (newWildcardTrie ''/'')))))
     = Inr (Some (99::nat), ''/foo/*'')"
  by (simp add: Get_def Add_def go_split_def newWildcardTrie_def newTrie_def wildcard_def)

section \<open>Inserting a pattern twice\<close>

text \<open>
  Claim C5, as the code has it. For a pattern \<open>p\<close> that does not end with the separator,
  \<open>Add(p, v1)\<close> succeeds, and so does \<open>Add(p, v2)\<close> after it; the second leaves the same
  trie as \<open>Add(p, v2)\<close> alone, and differs from the trie after the first only in the value
  of the node of \<open>p\<close> (\<open>put_value\<close>), so the children of that node stay. If in the trie
  before no child that stands before the way of \<open>p\<close> yields a match for \<open>p\<close>
  (\<open>unshadowed\<close>), the root has the empty key, \<open>p\<close> is not empty and \<open>v2\<close> is a value,
  then \<open>Get(p)\<close> returns \<open>v2\<close> with the pattern stored at the node of \<open>p\<close>, which is not
  empty. Starting from the empty trie with separator \<open>/\<close> and a \<open>p\<close> without leading
  separator that pattern is \<open>/\<close> followed by \<open>p\<close>.
\<close>

theorem Add_twice_overwrites:
  assumes sep: "separator t \<noteq> []" and ns: "\<not> suffix (separator t) p"
  shows "fst (Add p v1 t) = None
       \<and> Add p v2 (snd (Add p v1 t)) = Add p v2 t
       \<and> Add p v2 (snd (Add p v1 t))
           = (None, put_value (segments p (separator t)) v2 (snd (Add p v1 t)))
       \<and> (p \<noteq> [] \<and> v2 \<noteq> None \<and> key t = [] \<and> unshadowed (segments p (separator t)) t \<longrightarrow>
            (\<exists>n. node_at (segments p (separator t)) (snd (Add p v2 (snd (Add p v1 t)))) = Some n
               \<and> val n = v2 \<and> pattern n \<noteq> []
               \<and> Get p (snd (Add p v2 (snd (Add p v1 t)))) = Inr (v2, pattern n)))
       \<and> (p \<noteq> [] \<and> v2 \<noteq> None \<and> \<not> prefix ''/'' p \<and> \<not> suffix ''/'' p \<longrightarrow>
            Get p (snd (Add p v2 (snd (Add p v1 (newWildcardTrie ''/'')))))
              = Inr (v2, ''/'' @ p))"
proof -
  let ?sep = "separator t"
  let ?xs = "go_split p ?sep"
  let ?idx = "if ?xs ! 0 = [] then 1 else 0 :: nat"
  from Add_twice_facts [OF sep ns, of v1 v2] obtain t1 t2 where
    a1: "Add p v1 t = (None, t1)" and a21: "Add p v2 t1 = (None, t2)"
    and a2: "Add p v2 t = (None, t2)" and g2: "grow ?idx ?xs v2 t = Inr t2"
    and pv: "t2 = put_value (segments p ?sep) v2 t1"
    and s2: "separator t2 = ?sep" and k2: "key t2 = key t" by blast
  have c1: "fst (Add p v1 t) = None" using a1 by simp
  have c2: "Add p v2 (snd (Add p v1 t)) = Add p v2 t" using a1 a21 a2 by simp
  have c3: "Add p v2 (snd (Add p v1 t))
      = (None, put_value (segments p ?sep) v2 (snd (Add p v1 t)))"
    using a1 a21 pv by simp
  have c4: "\<exists>n. node_at (segments p ?sep) (snd (Add p v2 (snd (Add p v1 t)))) = Some n
               \<and> val n = v2 \<and> pattern n \<noteq> []
               \<and> Get p (snd (Add p v2 (snd (Add p v1 t)))) = Inr (v2, pattern n)"
    if p: "p \<noteq> []" and k: "key t = []" and un: "unshadowed (segments p ?sep) t"
  proof -
    from un have "unshadowed (drop ?idx ?xs) t" using segments_drop [OF sep, of p] by simp
    from get_after_grow_unshadowed(1) [OF g2 start_index_less [OF sep p] this]
    obtain n where "node_at (drop ?idx ?xs) t2 = Some n" "val n = v2" "pattern n \<noteq> []"
      "get_children ?idx ?xs wildcard (children t2) = Inr (v2, pattern n)" by blast
    moreover have "Get p t2 = get_children ?idx ?xs wildcard (children t2)"
      using Get_walk [of t2 p] sep p k s2 k2 by simp
    ultimately show ?thesis using a1 a21 segments_drop [OF sep, of p] by simp
  qed
  have c5: "Get p (snd (Add p v2 (snd (Add p v1 (newWildcardTrie ''/''))))) = Inr (v2, ''/'' @ p)"
    if p: "p \<noteq> []" and ns0: "\<not> suffix ''/'' p"
  proof -
    let ?t0 = "newWildcardTrie ''/'' :: 'a wildcardTrie"
    let ?ys = "go_split p ''/''"
    let ?j = "if ?ys ! 0 = [] then 1 else 0 :: nat"
    have s0: "separator ?t0 = ''/''" and k0: "key ?t0 = []" and ch: "children ?t0 = []"
      by (simp_all add: newWildcardTrie_def)
    from s0 ns0 have sep0: "separator ?t0 \<noteq> []" and ns0': "\<not> suffix (separator ?t0) p"
      by simp_all
    from Add_twice_facts [OF sep0 ns0', of v1 v2] s0 obtain u1 u2 where
      b1: "Add p v1 ?t0 = (None, u1)" and b21: "Add p v2 u1 = (None, u2)"
      and h2: "grow ?j ?ys v2 ?t0 = Inr u2"
      and su: "separator u2 = ''/''" and ku: "key u2 = key ?t0" by auto
    have lt: "?j < length ?ys" using start_index_less [of "''/''" p] p by simp
    from get_after_grow_fresh [OF h2 lt ch] s0
    have "get_children ?j ?ys wildcard (children u2) = Inr (v2, ''/'' @ go_join ?ys ''/'')"
      by simp
    moreover have "go_join ?ys ''/'' = p"
      using go_join_split_from [of "''/''" "[]" p] by (simp add: go_split_def)
    moreover have "Get p u2 = get_children ?j ?ys wildcard (children u2)"
      using Get_walk [of u2 p] p su ku k0 by simp
    ultimately show ?thesis using b1 b21 by simp
  qed
  from c1 c2 c3 c4 c5 show ?thesis by blast
qed

theorem Add_twice_overwrites_witness:
  "separator (WildcardTrie ''/'' [] [] None
       [WildcardTrie ''/'' ''*'' ''/*'' None [WildcardTrie ''/'' ''x'' ''/*/x'' (Some (9::nat)) []]]) \<noteq> []
   \<and> \<not> suffix ''/'' ''foo/y'' \<and> ''foo/y'' \<noteq> [] \<and> \<not> prefix ''/'' ''foo/y''
   \<and> Some (2::nat) \<noteq> None
   \<and> key (WildcardTrie ''/'' [] [] None
       [WildcardTrie ''/'' ''*'' ''/*'' None [WildcardTrie ''/'' ''x'' ''/*/x'' (Some (9::nat)) []]]) = []
   \<and> unshadowed [''foo'', ''y''] (WildcardTrie ''/'' [] [] None
       [WildcardTrie ''/'' ''*'' ''/*'' None [WildcardTrie ''/'' ''x'' ''/*/x'' (Some (9::nat)) []]])
   \<and> Add ''foo/y'' (Some 2) (snd (Add ''foo/y'' (Some 1) (WildcardTrie ''/'' [] [] None
       [WildcardTrie ''/'' ''*'' ''/*'' None [WildcardTrie ''/'' ''x'' ''/*/x'' (Some (9::nat)) []]])))
       = (None, WildcardTrie ''/'' [] [] None
           [WildcardTrie ''/'' ''*'' ''/*'' None [WildcardTrie ''/'' ''x'' ''/*/x'' (Some 9) []],
            WildcardTrie ''/'' ''foo'' ''/foo'' None [WildcardTrie ''/'' ''y'' ''/foo/y'' (Some 2) []]])
   \<and> node_at [''foo'', ''y''] (snd (Add ''foo/y'' (Some 2) (snd (Add ''foo/y'' (Some 1)
       (WildcardTrie ''/'' [] [] None
       [WildcardTrie ''/'' ''*'' ''/*'' None [WildcardTrie ''/'' ''x'' ''/*/x'' (Some (9::nat)) []]])))))
       = Some (WildcardTrie ''/'' ''y'' ''/foo/y'' (Some 2) [])
   \<and> Get ''foo/y'' (snd (Add ''foo/y'' (Some 2) (snd (Add ''foo/y'' (Some 1) (WildcardTrie ''/'' [] [] None
       [WildcardTrie ''/'' ''*'' ''/*'' None [WildcardTrie ''/'' ''x'' ''/*/x'' (Some (9::nat)) []]])))))
       = Inr (Some 2, ''/foo/y'')
   \<and> Get ''foo/y'' (snd (Add ''foo/y'' (Some 2) (snd (Add ''foo/y'' (Some 1) (newWildcardTrie ''/'')))))
       = Inr (Some (2::nat), ''/foo/y'')"
  using Add_twice_overwrites
    [of "WildcardTrie ''/'' [] [] None
       [WildcardTrie ''/'' ''*'' ''/*'' None [WildcardTrie ''/'' ''x'' ''/*/x'' (Some (9::nat)) []]]"
       "''foo/y''" "Some 1" "Some 2"]
  by (simp add: newWildcardTrie_def suffix_def segments_def go_split_def yields_def
        Add_def Get_def newTrie_def wildcard_def)

text \<open>
  The pattern reported for \<open>foo\<close> is \<open>/foo\<close>, not \<open>foo\<close>; and on a trie where \<open>*\<close> was
  inserted before, \<open>Get("foo")\<close> returns the wildcard's value and pattern.
\<close>

theorem overwrite_reports_stored_pattern:
  "Get ''foo'' (snd (Add ''foo'' (Some 2) (snd (Add ''foo'' (Some 1) (newWildcardTrie ''/'')))))
     = Inr (Some (2::nat), ''/foo'')
   \<and> Get ''foo'' (snd (Add ''foo'' (Some 2) (snd (Add ''foo'' (Some 1)
        (snd (Add ''*'' (Some 9) (newWildcardTrie ''/'')))))))
     = Inr (Some (9::nat), ''/*'')"
  by (simp add: Get_def Add_def go_split_def newWildcardTrie_def newTrie_def wildcard_def)

end
